theory Spec2Isabelle
  imports Main "HOL-Library.Word" "HOL-Library.AList" "HOL-Library.Stream"
begin

unbundle bit_operations_syntax

section \<open>The RAM backed block device driver (drivers/block/brd.c)\<close>

subsection \<open>Machine types and constants\<close>

text \<open>
  The target is a 64-bit kernel (arm64): \<open>sector_t\<close>, \<open>pgoff_t\<close>, \<open>size_t\<close> and
  \<open>unsigned long\<close> are 64-bit words, \<open>unsigned int\<close> is a 32-bit word. Error codes
  (\<open>int\<close>) are small and are kept as integers.
\<close>

type_synonym byte = "8 word"
type_synonym sector_t = "64 word"
type_synonym pgoff_t = "64 word"
type_synonym size_t = "64 word"
type_synonym uint = "32 word"

text \<open>
  Modelled from the spec: \<open>SECTOR_SHIFT\<close>, \<open>PAGE_SHIFT\<close>, \<open>PAGE_SIZE\<close> and the error
  numbers come from kernel headers that are not part of the sources. A sector is 512
  bytes; the page size is that of the traced configuration (\<open>len=0x1000\<close>), a
  power-of-two multiple of the sector size.
\<close>

definition SECTOR_SHIFT :: nat where
  "SECTOR_SHIFT = 9"

definition PAGE_SHIFT :: nat where
  "PAGE_SHIFT = 12"

definition PAGE_SIZE :: size_t where
  "PAGE_SIZE = push_bit PAGE_SHIFT 1"

definition PAGE_SECTORS_SHIFT :: nat where
  "PAGE_SECTORS_SHIFT = PAGE_SHIFT - SECTOR_SHIFT"

definition PAGE_SECTORS :: "64 word" where
  "PAGE_SECTORS = push_bit PAGE_SECTORS_SHIFT 1"

definition FREE_BATCH :: nat where
  "FREE_BATCH = 16"

definition ENOSPC :: int where
  "ENOSPC = 28"

definition EEXIST :: int where
  "EEXIST = 17"

subsection \<open>Crashes\<close>

text \<open>
  A \<open>BUG_ON\<close> that fires stops the kernel; a \<open>memcpy\<close> or \<open>memset\<close> that leaves the
  mapped page is undefined in C. Both are outcomes of the model, distinct from the
  error codes the driver returns.
\<close>

datatype crash = BUG | OutOfBounds

subsection \<open>Pages, the radix tree and the allocator\<close>

text \<open>
  A \<open>struct page\<close> of the backing store: its \<open>->index\<close> and the bytes seen through
  \<open>kmap_atomic\<close>.
\<close>

record page =
  index :: pgoff_t
  data :: "byte list"

text \<open>
  Modelled from the spec: the radix tree (\<open>linux/radix-tree.h\<close>) is kernel code outside
  the sources. It is a sparse mapping from page index to page, here an association list:
  lookup finds the item of a key, insert refuses a key that is present (\<open>-EEXIST\<close>),
  delete returns the removed item, and gang lookup returns up to \<open>max_items\<close> items whose
  key is at least \<open>first\<close>, in ascending order of key. The memory an insertion needs is
  set aside by \<open>radix_tree_preload\<close>, so an insertion after a preload fails only on a key
  that is present.
\<close>

type_synonym radix_tree_root = "(pgoff_t \<times> page) list"

definition radix_tree_lookup :: "radix_tree_root \<Rightarrow> pgoff_t \<Rightarrow> page option" where
  "radix_tree_lookup root idx = map_of root idx"

definition radix_tree_insert :: "radix_tree_root \<Rightarrow> pgoff_t \<Rightarrow> page \<Rightarrow> int \<times> radix_tree_root" where
  "radix_tree_insert root idx item =
     (if idx \<in> fst ` set root then (- EEXIST, root) else (0, AList.update idx item root))"

definition radix_tree_delete :: "radix_tree_root \<Rightarrow> pgoff_t \<Rightarrow> page option \<times> radix_tree_root" where
  "radix_tree_delete root idx = (map_of root idx, AList.delete idx root)"

definition radix_tree_gang_lookup :: "radix_tree_root \<Rightarrow> pgoff_t \<Rightarrow> nat \<Rightarrow> page list" where
  "radix_tree_gang_lookup root first max_items =
     map snd (take max_items (sort_key fst (filter (\<lambda>kv. first \<le> fst kv) root)))"

text \<open>
  Modelled from the spec: the kernel's memory allocator is outside the sources. Whether
  an allocation succeeds is decided by the environment: the stream holds the outcome of
  each allocation attempt, in program order (\<open>True\<close>: memory was obtained). With
  \<open>__GFP_ZERO\<close> the page handed out is zero-filled.
\<close>

type_synonym kmem = "bool stream"

definition alloc_page :: "kmem \<Rightarrow> page option \<times> kmem" where
  "alloc_page m =
     (if shd m then Some \<lparr>index = 0, data = replicate (unat PAGE_SIZE) 0\<rparr> else None, stl m)"

definition radix_tree_preload :: "kmem \<Rightarrow> bool \<times> kmem" where
  "radix_tree_preload m = (\<not> shd m, stl m)"

text \<open>
  \<open>memcpy (dst + d, src + s, n)\<close> and \<open>memset (dst + d, c, n)\<close> on the bytes of mapped
  pages: the result is the new content of \<open>dst\<close>.
\<close>

definition memcpy :: "byte list \<Rightarrow> nat \<Rightarrow> byte list \<Rightarrow> nat \<Rightarrow> nat \<Rightarrow> crash + byte list" where
  "memcpy dst d src s n =
     (if d + n \<le> length dst \<and> s + n \<le> length src
      then Inr (take d dst @ take n (drop s src) @ drop (d + n) dst)
      else Inl OutOfBounds)"

definition memset :: "byte list \<Rightarrow> nat \<Rightarrow> byte \<Rightarrow> nat \<Rightarrow> crash + byte list" where
  "memset dst d c n =
     (if d + n \<le> length dst
      then Inr (take d dst @ replicate n c @ drop (d + n) dst)
      else Inl OutOfBounds)"

subsection \<open>The device\<close>

text \<open>
  \<open>struct brd_device\<close>: the device number, the radix tree of pages, and of its
  \<open>gendisk\<close> the first minor and the capacity in sectors (\<open>set_capacity\<close>,
  \<open>get_capacity\<close>).
\<close>

record brd_device =
  brd_number :: int
  first_minor :: int
  disk_capacity :: sector_t
  brd_pages :: radix_tree_root

definition get_capacity :: "brd_device \<Rightarrow> sector_t" where
  "get_capacity brd = disk_capacity brd"

subsection \<open>Page store\<close>

definition brd_lookup_page :: "brd_device \<Rightarrow> sector_t \<Rightarrow> crash + page option" where
  "brd_lookup_page brd sector =
     (let idx = drop_bit PAGE_SECTORS_SHIFT sector;
          page = radix_tree_lookup (brd_pages brd) idx
      in case page of
           None \<Rightarrow> Inr None
         | Some p \<Rightarrow> if index p \<noteq> idx then Inl BUG else Inr (Some p))"

definition brd_insert_page :: "kmem \<Rightarrow> brd_device \<Rightarrow> sector_t \<Rightarrow> crash + (page option \<times> brd_device \<times> kmem)" where
  "brd_insert_page m brd sector =
     (case brd_lookup_page brd sector of
        Inl c \<Rightarrow> Inl c
      | Inr (Some page) \<Rightarrow> Inr (Some page, brd, m)
      | Inr None \<Rightarrow>
          (case alloc_page m of
             (None, m1) \<Rightarrow> Inr (None, brd, m1)
           | (Some page, m1) \<Rightarrow>
               (case radix_tree_preload m1 of
                  (True, m2) \<Rightarrow> Inr (None, brd, m2)
                | (False, m2) \<Rightarrow>
                    (let idx = drop_bit PAGE_SECTORS_SHIFT sector;
                         page = page\<lparr>index := idx\<rparr>
                     in case radix_tree_insert (brd_pages brd) idx page of
                          (err, root) \<Rightarrow>
                            if err \<noteq> 0 then
                              (case radix_tree_lookup (brd_pages brd) idx of
                                 None \<Rightarrow> Inl BUG
                               | Some winner \<Rightarrow>
                                   if index winner \<noteq> idx then Inl BUG
                                   else Inr (Some winner, brd, m2))
                            else Inr (Some page, brd\<lparr>brd_pages := root\<rparr>, m2)))))"

subsection \<open>Copying between a caller's page and the store\<close>

text \<open>
  A \<open>void *\<close> into a mapped page is the page's bytes and an offset. The page a
  \<open>memcpy\<close> writes through \<open>kmap_atomic\<close> is the page object the tree holds, so the new
  bytes are stored back under the page's index.
\<close>

definition kunmap_atomic :: "brd_device \<Rightarrow> page \<Rightarrow> byte list \<Rightarrow> brd_device" where
  "kunmap_atomic brd page dst =
     brd\<lparr>brd_pages := AList.update (index page) (page\<lparr>data := dst\<rparr>) (brd_pages brd)\<rparr>"

definition copy_to_brd_setup :: "kmem \<Rightarrow> brd_device \<Rightarrow> sector_t \<Rightarrow> size_t \<Rightarrow> crash + (int \<times> brd_device \<times> kmem)" where
  "copy_to_brd_setup m brd sector n =
     (let offset = (ucast (push_bit SECTOR_SHIFT (sector AND (PAGE_SECTORS - 1))) :: uint);
          copy = min n (PAGE_SIZE - ucast offset)
      in case brd_insert_page m brd sector of
           Inl c \<Rightarrow> Inl c
         | Inr (None, brd1, m1) \<Rightarrow> Inr (- ENOSPC, brd1, m1)
         | Inr (Some _, brd1, m1) \<Rightarrow>
             if copy < n then
               (let sector2 = sector + drop_bit SECTOR_SHIFT copy
                in case brd_insert_page m1 brd1 sector2 of
                     Inl c \<Rightarrow> Inl c
                   | Inr (None, brd2, m2) \<Rightarrow> Inr (- ENOSPC, brd2, m2)
                   | Inr (Some _, brd2, m2) \<Rightarrow> Inr (0, brd2, m2))
             else Inr (0, brd1, m1))"

definition copy_to_brd :: "brd_device \<Rightarrow> byte list \<Rightarrow> nat \<Rightarrow> sector_t \<Rightarrow> size_t \<Rightarrow> crash + brd_device" where
  "copy_to_brd brd src soff sector n =
     (let offset = (ucast (push_bit SECTOR_SHIFT (sector AND (PAGE_SECTORS - 1))) :: uint);
          copy = min n (PAGE_SIZE - ucast offset)
      in case brd_lookup_page brd sector of
           Inl c \<Rightarrow> Inl c
         | Inr None \<Rightarrow> Inl BUG
         | Inr (Some page) \<Rightarrow>
             (case memcpy (data page) (unat offset) src soff (unat copy) of
                Inl c \<Rightarrow> Inl c
              | Inr dst \<Rightarrow>
                  (let brd1 = kunmap_atomic brd page dst
                   in if copy < n then
                        (let soff2 = soff + unat copy;
                             sector2 = sector + drop_bit SECTOR_SHIFT copy;
                             copy2 = n - copy
                         in case brd_lookup_page brd1 sector2 of
                              Inl c \<Rightarrow> Inl c
                            | Inr None \<Rightarrow> Inl BUG
                            | Inr (Some page2) \<Rightarrow>
                                (case memcpy (data page2) 0 src soff2 (unat copy2) of
                                   Inl c \<Rightarrow> Inl c
                                 | Inr dst2 \<Rightarrow> Inr (kunmap_atomic brd1 page2 dst2)))
                      else Inr brd1)))"

definition copy_from_brd :: "byte list \<Rightarrow> nat \<Rightarrow> brd_device \<Rightarrow> sector_t \<Rightarrow> size_t \<Rightarrow> crash + byte list" where
  "copy_from_brd dst doff brd sector n =
     (let offset = (ucast (push_bit SECTOR_SHIFT (sector AND (PAGE_SECTORS - 1))) :: uint);
          copy = min n (PAGE_SIZE - ucast offset)
      in case brd_lookup_page brd sector of
           Inl c \<Rightarrow> Inl c
         | Inr page \<Rightarrow>
             (case (case page of
                      Some p \<Rightarrow> memcpy dst doff (data p) (unat offset) (unat copy)
                    | None \<Rightarrow> memset dst doff 0 (unat copy)) of
                Inl c \<Rightarrow> Inl c
              | Inr dst1 \<Rightarrow>
                  if copy < n then
                    (let doff2 = doff + unat copy;
                         sector2 = sector + drop_bit SECTOR_SHIFT copy;
                         copy2 = n - copy
                     in case brd_lookup_page brd sector2 of
                          Inl c \<Rightarrow> Inl c
                        | Inr page2 \<Rightarrow>
                            (case page2 of
                               Some p \<Rightarrow> memcpy dst1 doff2 (data p) 0 (unat copy2)
                             | None \<Rightarrow> memset dst1 doff2 0 (unat copy2)))
                  else Inr dst1))"

subsection \<open>The I/O dispatcher\<close>

text \<open>
  Modelled from the spec: \<open>op_is_write\<close> and \<open>bio_op\<close> are block layer helpers outside
  the sources; an operation is a write when its lowest bit is set (\<open>op=0x1\<close> is a write,
  \<open>op=0x0\<close> a read), and the operation is the low byte of \<open>bi_opf\<close>.
\<close>

definition op_is_write :: "uint \<Rightarrow> bool" where
  "op_is_write op = (op AND 1 \<noteq> 0)"

definition brd_do_bvec :: "kmem \<Rightarrow> brd_device \<Rightarrow> byte list \<Rightarrow> uint \<Rightarrow> uint \<Rightarrow> uint \<Rightarrow> sector_t
    \<Rightarrow> crash + (int \<times> brd_device \<times> byte list \<times> kmem)" where
  "brd_do_bvec m brd mem len off op sector =
     (if op_is_write op then
        (case copy_to_brd_setup m brd sector (ucast len) of
           Inl c \<Rightarrow> Inl c
         | Inr (err, brd1, m1) \<Rightarrow>
             if err \<noteq> 0 then Inr (err, brd1, mem, m1)
             else (case copy_to_brd brd1 mem (unat off) sector (ucast len) of
                     Inl c \<Rightarrow> Inl c
                   | Inr brd2 \<Rightarrow> Inr (0, brd2, mem, m1)))
      else
        (case copy_from_brd mem (unat off) brd sector (ucast len) of
           Inl c \<Rightarrow> Inl c
         | Inr mem' \<Rightarrow> Inr (0, brd, mem', m)))"

text \<open>
  A \<open>struct bio\<close>: the start sector and size of its iterator, the operation flags, the
  completion status, and its segments. Modelled from the spec: \<open>bio_for_each_segment\<close>,
  \<open>bio_end_sector\<close>, \<open>bio_endio\<close> and \<open>bio_io_error\<close> are block layer code outside the
  sources. The segment iterator presents the request as an ordered list of single-page
  segments, each with its page, length and offset in the page; the end sector is the
  start sector plus the size in sectors; completion with an error sets the status to
  \<open>BLK_STS_IOERR\<close>.
\<close>

datatype blk_status_t = BLK_STS_OK | BLK_STS_IOERR

record bio_vec =
  bv_page :: "byte list"
  bv_len :: uint
  bv_offset :: uint

record bio =
  bi_sector :: sector_t
  bi_size :: uint
  bi_opf :: uint
  bi_status :: blk_status_t
  bi_io_vec :: "bio_vec list"

definition bio_op :: "bio \<Rightarrow> uint" where
  "bio_op b = bi_opf b AND 255"

definition bio_end_sector :: "bio \<Rightarrow> sector_t" where
  "bio_end_sector b = bi_sector b + ucast (drop_bit SECTOR_SHIFT (bi_size b))"

definition bio_endio :: "bio \<Rightarrow> bio" where
  "bio_endio b = b"

definition bio_io_error :: "bio \<Rightarrow> bio" where
  "bio_io_error b = bio_endio (b\<lparr>bi_status := BLK_STS_IOERR\<rparr>)"

text \<open>
  The body of the segment loop of \<open>brd_submit_bio\<close>: the error of the first failing
  segment (0 when the loop runs to its end), the device, the segments with the pages as
  the transfers left them, and the allocator. The \<open>WARN_ON_ONCE\<close> on a buffer that is
  not aligned to sectors only logs, and the loop goes on.
\<close>

fun brd_submit_segments :: "kmem \<Rightarrow> brd_device \<Rightarrow> uint \<Rightarrow> sector_t \<Rightarrow> bio_vec list
    \<Rightarrow> crash + (int \<times> brd_device \<times> bio_vec list \<times> kmem)" where
  "brd_submit_segments m brd op sector [] = Inr (0, brd, [], m)"
| "brd_submit_segments m brd op sector (bvec # rest) =
     (let len = bv_len bvec
      in case brd_do_bvec m brd (bv_page bvec) len (bv_offset bvec) op sector of
           Inl c \<Rightarrow> Inl c
         | Inr (err, brd1, mem, m1) \<Rightarrow>
             if err \<noteq> 0 then Inr (err, brd1, bvec\<lparr>bv_page := mem\<rparr> # rest, m1)
             else (case brd_submit_segments m1 brd1 op
                          (sector + ucast (drop_bit SECTOR_SHIFT len)) rest of
                     Inl c \<Rightarrow> Inl c
                   | Inr (err', brd2, rest', m2) \<Rightarrow>
                       Inr (err', brd2, bvec\<lparr>bv_page := mem\<rparr> # rest', m2)))"

definition brd_submit_bio :: "kmem \<Rightarrow> brd_device \<Rightarrow> bio \<Rightarrow> crash + (brd_device \<times> bio \<times> kmem)" where
  "brd_submit_bio m brd b =
     (let sector = bi_sector b
      in if bio_end_sector b > get_capacity brd then Inr (brd, bio_io_error b, m)
         else (case brd_submit_segments m brd (bio_op b) sector (bi_io_vec b) of
                 Inl c \<Rightarrow> Inl c
               | Inr (err, brd', vecs, m') \<Rightarrow>
                   if err \<noteq> 0 then Inr (brd', bio_io_error (b\<lparr>bi_io_vec := vecs\<rparr>), m')
                   else Inr (brd', bio_endio (b\<lparr>bi_io_vec := vecs\<rparr>), m')))"

subsection \<open>Freeing the store\<close>

text \<open>
  What \<open>brd_free_pages\<close> does to the rest of the kernel is a trace of events: each
  \<open>__free_page\<close> with the page released, and each \<open>cond_resched\<close>.
\<close>

datatype event = Free_page page | Cond_resched

text \<open>The \<open>for\<close> loop over one batch of \<open>brd_free_pages\<close>.\<close>

fun brd_free_batch :: "radix_tree_root \<Rightarrow> pgoff_t \<Rightarrow> page list
    \<Rightarrow> crash + (radix_tree_root \<times> pgoff_t \<times> event list)" where
  "brd_free_batch root pos [] = Inr (root, pos, [])"
| "brd_free_batch root pos (p # ps) =
     (if index p < pos then Inl BUG
      else (let pos = index p
            in case radix_tree_delete root pos of
                 (ret, root1) \<Rightarrow>
                   if ret = None \<or> ret \<noteq> Some p then Inl BUG
                   else (case brd_free_batch root1 pos ps of
                           Inl c \<Rightarrow> Inl c
                         | Inr (root2, pos2, evs) \<Rightarrow> Inr (root2, pos2, Free_page p # evs))))"

lemma length_delete_less:
  "map_of al k = Some v \<Longrightarrow> length (AList.delete k al) < length al"
  by (induction al) (auto simp: less_Suc_eq_le AList.length_delete_le split: if_splits)

lemma brd_free_batch_length:
  "brd_free_batch root pos ps = Inr (root', pos', evs) \<Longrightarrow> length root' + length ps \<le> length root"
proof (induction ps arbitrary: root pos root' pos' evs)
  case Nil
  then show ?case by simp
next
  case (Cons p ps)
  from Cons.prems obtain root2 pos2 evs2 where
    d: "map_of root (index p) = Some p"
    and r: "brd_free_batch (AList.delete (index p) root) (index p) ps = Inr (root2, pos2, evs2)"
    and e: "root' = root2"
    by (auto simp: radix_tree_delete_def Let_def split: if_splits sum.splits)
  from Cons.IH[OF r] length_delete_less[OF d] e show ?case by simp
qed

text \<open>
  The \<open>do ... while (nr_pages == FREE_BATCH)\<close> loop. It goes round again only after a
  full batch has been deleted, so the tree shrinks with every round.
\<close>

function brd_free_pages_loop :: "radix_tree_root \<Rightarrow> pgoff_t \<Rightarrow> crash + (radix_tree_root \<times> event list)" where
  "brd_free_pages_loop root pos =
     (let pages = radix_tree_gang_lookup root pos FREE_BATCH;
          nr_pages = length pages
      in case brd_free_batch root pos pages of
           Inl c \<Rightarrow> Inl c
         | Inr (root1, pos1, evs) \<Rightarrow>
             (let pos2 = pos1 + 1
              in if nr_pages = FREE_BATCH then
                   (case brd_free_pages_loop root1 pos2 of
                      Inl c \<Rightarrow> Inl c
                    | Inr (root2, evs2) \<Rightarrow> Inr (root2, evs @ Cond_resched # evs2))
                 else Inr (root1, evs @ [Cond_resched])))"
  by pat_completeness auto
termination
proof (relation "measure (\<lambda>(root, pos). length root)")
  show "wf (measure (\<lambda>(root, pos). length root))" by simp
next
  fix root pos pages nr_pages x2 root1 y pos1 evs pos2
  assume "pages = radix_tree_gang_lookup root pos FREE_BATCH"
    "nr_pages = length pages"
    "brd_free_batch root pos pages = Inr x2" "(root1, y) = x2" "(pos1, evs) = y"
    "nr_pages = FREE_BATCH"
  then have "brd_free_batch root pos pages = Inr (root1, pos1, evs)" "length pages = 16"
    by (auto simp: FREE_BATCH_def)
  from brd_free_batch_length[OF this(1)] this(2)
  show "((root1, pos2), (root, pos)) \<in> measure (\<lambda>(root, pos). length root)" by simp
qed

declare brd_free_pages_loop.simps [simp del]

definition brd_free_pages :: "brd_device \<Rightarrow> crash + (brd_device \<times> event list)" where
  "brd_free_pages brd =
     (case brd_free_pages_loop (brd_pages brd) 0 of
        Inl c \<Rightarrow> Inl c
      | Inr (root, evs) \<Rightarrow> Inr (brd\<lparr>brd_pages := root\<rparr>, evs))"

text \<open>\<open>brd_free\<close> releases the pages and then the device object itself.\<close>

definition brd_free :: "brd_device \<Rightarrow> crash + event list" where
  "brd_free brd =
     (case brd_free_pages brd of
        Inl c \<Rightarrow> Inl c
      | Inr (brd', evs) \<Rightarrow> Inr evs)"

subsection \<open>The device registry\<close>

text \<open>
  \<open>brd_alloc\<close> makes three allocations (\<open>kzalloc\<close>, \<open>blk_alloc_queue\<close>, \<open>alloc_disk\<close>)
  and gives up at the first that fails. The module parameters \<open>rd_size\<close> and \<open>max_part\<close>
  are arguments.
\<close>

definition brd_alloc :: "kmem \<Rightarrow> 64 word \<Rightarrow> int \<Rightarrow> int \<Rightarrow> brd_device option \<times> kmem" where
  "brd_alloc m rd_size max_part i =
     (if \<not> shd m then (None, stl m)
      else if \<not> shd (stl m) then (None, stl (stl m))
      else if \<not> shd (stl (stl m)) then (None, stl (stl (stl m)))
      else (Some \<lparr>brd_number = i, first_minor = i * max_part,
                   disk_capacity = rd_size * 2, brd_pages = []\<rparr>,
            stl (stl (stl m))))"

text \<open>
  \<open>brd_init_one\<close> on the list \<open>brd_devices\<close>: the device found or made (\<open>NULL\<close> is
  \<open>None\<close>), the flag \<open>*new\<close>, the list and the allocator.
\<close>

definition brd_init_one :: "kmem \<Rightarrow> 64 word \<Rightarrow> int \<Rightarrow> brd_device list \<Rightarrow> int
    \<Rightarrow> brd_device option \<times> bool \<times> brd_device list \<times> kmem" where
  "brd_init_one m rd_size max_part brd_devices i =
     (case find (\<lambda>brd. brd_number brd = i) brd_devices of
        Some brd \<Rightarrow> (Some brd, False, brd_devices, m)
      | None \<Rightarrow>
          (case brd_alloc m rd_size max_part i of
             (Some brd, m1) \<Rightarrow> (Some brd, True, brd_devices @ [brd], m1)
           | (None, m1) \<Rightarrow> (None, True, brd_devices, m1)))"

subsection \<open>What the device stores\<close>

text \<open>
  The invariant of the store that the \<open>BUG_ON\<close>s check: every page is filed under its
  own index, once, and has a page of bytes.
\<close>

definition brd_inv :: "brd_device \<Rightarrow> bool" where
  "brd_inv brd \<longleftrightarrow>
     distinct (map fst (brd_pages brd)) \<and>
     (\<forall>kv \<in> set (brd_pages brd). index (snd kv) = fst kv \<and> length (data (snd kv)) = unat PAGE_SIZE)"

text \<open>
  A byte of the device is addressed by page index and offset in the page. Its stored
  value is the byte of the page, and zero where there is no page.
\<close>

definition brd_byte :: "brd_device \<Rightarrow> pgoff_t \<times> nat \<Rightarrow> byte" where
  "brd_byte brd a =
     (case radix_tree_lookup (brd_pages brd) (fst a) of
        None \<Rightarrow> 0
      | Some p \<Rightarrow> if snd a < length (data p) then data p ! snd a else 0)"

text \<open>
  The address of byte \<open>i\<close> of a transfer that starts at \<open>sector\<close>: it lies in sector
  \<open>sector + i div 512\<close>, whose page and offset are those of \<open>brd_lookup_page\<close> and of the
  copy routines.
\<close>

definition seg_addr :: "sector_t \<Rightarrow> nat \<Rightarrow> pgoff_t \<times> nat" where
  "seg_addr sector i =
     (let sect = sector + of_nat (i div 2 ^ SECTOR_SHIFT)
      in (drop_bit PAGE_SECTORS_SHIFT sect,
          unat (push_bit SECTOR_SHIFT (sect AND (PAGE_SECTORS - 1))) + i mod 2 ^ SECTOR_SHIFT))"

definition seg_range :: "sector_t \<Rightarrow> uint \<Rightarrow> (pgoff_t \<times> nat) set" where
  "seg_range sector len = seg_addr sector ` {..<unat len}"

text \<open>
  The states a device goes through, with what has been written: from its creation by
  \<open>brd_alloc\<close>, by calls of \<open>brd_do_bvec\<close> on segments as the segment iterator presents
  them (not empty, at most a page long, inside the caller's page), under any behaviour
  of the allocator. \<open>W\<close> holds the addresses of the bytes written so far, \<open>A\<close> those of
  every write attempted, whether it succeeded or not.
\<close>

inductive brd_reach :: "brd_device \<Rightarrow> (pgoff_t \<times> nat) set \<Rightarrow> (pgoff_t \<times> nat) set \<Rightarrow> bool" where
  created: "brd_alloc m rd_size max_part i = (Some brd, m') \<Longrightarrow> brd_reach brd {} {}"
| transfer:
    "brd_reach brd W A \<Longrightarrow>
     brd_do_bvec m brd mem len off op sector = Inr (err, brd', mem', m') \<Longrightarrow>
     0 < unat len \<Longrightarrow> unat len \<le> unat PAGE_SIZE \<Longrightarrow> unat off + unat len \<le> length mem \<Longrightarrow>
     brd_reach brd'
       (if op_is_write op \<and> err = 0 then W \<union> seg_range sector len else W)
       (if op_is_write op then A \<union> seg_range sector len else A)"

subsection \<open>Requests\<close>

text \<open>
  The sector the loop of \<open>brd_submit_bio\<close> has reached after the segments \<open>vecs\<close>, and
  how many segments it completes: the number of rounds of the loop in which
  \<open>brd_do_bvec\<close> returned 0.
\<close>

fun sector_after :: "sector_t \<Rightarrow> bio_vec list \<Rightarrow> sector_t" where
  "sector_after sector [] = sector"
| "sector_after sector (bvec # rest) =
     sector_after (sector + ucast (drop_bit SECTOR_SHIFT (bv_len bvec))) rest"

fun brd_segments_done :: "kmem \<Rightarrow> brd_device \<Rightarrow> uint \<Rightarrow> sector_t \<Rightarrow> bio_vec list \<Rightarrow> nat" where
  "brd_segments_done m brd op sector [] = 0"
| "brd_segments_done m brd op sector (bvec # rest) =
     (case brd_do_bvec m brd (bv_page bvec) (bv_len bvec) (bv_offset bvec) op sector of
        Inl c \<Rightarrow> 0
      | Inr (err, brd1, mem, m1) \<Rightarrow>
          if err \<noteq> 0 then 0
          else Suc (brd_segments_done m1 brd1 op
                      (sector + ucast (drop_bit SECTOR_SHIFT (bv_len bvec))) rest))"

text \<open>
  A segment as the segment iterator presents it: at most a page long and inside its page.
\<close>

definition segment_ok :: "bio_vec \<Rightarrow> bool" where
  "segment_ok bvec \<longleftrightarrow>
     unat (bv_len bvec) \<le> unat PAGE_SIZE \<and>
     unat (bv_offset bvec) + unat (bv_len bvec) \<le> length (bv_page bvec)"

subsection \<open>Reading a trace\<close>

text \<open>
  The pages a trace releases, in order; and the discipline of its yields: never more than
  \<open>FREE_BATCH\<close> pages are released without a \<open>cond_resched\<close> after them, the last
  batch included (\<open>k\<close> counts the pages released since the last yield).
\<close>

fun freed_pages :: "event list \<Rightarrow> page list" where
  "freed_pages [] = []"
| "freed_pages (Free_page p # evs) = p # freed_pages evs"
| "freed_pages (Cond_resched # evs) = freed_pages evs"

fun yields_ok :: "nat \<Rightarrow> event list \<Rightarrow> bool" where
  "yields_ok k [] = (k = 0)"
| "yields_ok k (Free_page p # evs) = (k < FREE_BATCH \<and> yields_ok (Suc k) evs)"
| "yields_ok k (Cond_resched # evs) = yields_ok 0 evs"

section \<open>Arithmetic of sectors, pages and offsets\<close>

lemma unat_PAGE_SIZE: "unat PAGE_SIZE = 4096"
  by (simp add: PAGE_SIZE_def PAGE_SHIFT_def)

lemma PAGE_SECTORS_mask: "PAGE_SECTORS - 1 = (7 :: 64 word)"
  by (simp add: PAGE_SECTORS_def PAGE_SECTORS_SHIFT_def PAGE_SHIFT_def SECTOR_SHIFT_def)

lemma and7: "(s :: 64 word) AND 7 = take_bit 3 s"
  using take_bit_eq_mask[of 3 s] by (simp add: mask_eq_exp_minus_1)

lemma unat_and7: "unat ((s :: 64 word) AND 7) = unat s mod 8"
  by (simp add: and7 take_bit_eq_mod unat_mod)

lemma unat_lt64: "unat (x :: 64 word) < 18446744073709551616"
  using unsigned_less[of x, where 'a=nat] by simp

lemma unat_lt32: "unat (x :: 32 word) < 4294967296"
  using unsigned_less[of x, where 'a=nat] by simp

lemma unat_page_index: "unat (drop_bit PAGE_SECTORS_SHIFT (x :: 64 word)) = unat x div 8"
  by (simp add: unat_drop_bit_eq drop_bit_eq_div PAGE_SECTORS_SHIFT_def PAGE_SHIFT_def SECTOR_SHIFT_def unat_div)

lemma unat_push9_and7:
  "unat (push_bit SECTOR_SHIFT ((sector :: 64 word) AND (PAGE_SECTORS - 1))) = 512 * (unat sector mod 8)"
proof -
  have a: "unat (sector AND 7) < 8" by (simp add: unat_and7)
  have "unat ((sector AND 7) * 512) = unat (sector AND 7) * unat (512 :: 64 word)"
    using a by (subst unat_mult_lem[symmetric]) simp
  moreover have "push_bit SECTOR_SHIFT (sector AND (PAGE_SECTORS - 1)) = (sector AND 7) * 512"
    unfolding PAGE_SECTORS_mask SECTOR_SHIFT_def push_bit_eq_mult by simp
  ultimately show ?thesis
    by (simp add: unat_and7)
qed

lemma unat_offset:
  "unat (ucast (push_bit SECTOR_SHIFT (sector AND (PAGE_SECTORS - 1))) :: uint) = 512 * (unat (sector :: 64 word) mod 8)"
proof -
  have "512 * (unat sector mod 8) < (4294967296 :: nat)" by simp
  then show ?thesis
    unfolding unsigned_ucast_eq take_bit_eq_mod unat_push9_and7 by simp
qed

lemma unat_ucast_up: "unat (ucast (x :: uint) :: 64 word) = unat x"
  using unat_lt32[of x] by (simp add: unsigned_ucast_eq take_bit_eq_mod) 

lemma unat_min: "unat (min (a :: 'a :: len word) b) = min (unat a) (unat b)"
  by (simp add: min_def word_le_nat_alt)

lemma unat_room:
  "unat (PAGE_SIZE - ucast (ucast (push_bit SECTOR_SHIFT (sector AND (PAGE_SECTORS - 1))) :: uint))
     = 4096 - 512 * (unat (sector :: 64 word) mod 8)"
proof -
  let ?o = "ucast (push_bit SECTOR_SHIFT (sector AND (PAGE_SECTORS - 1))) :: uint"
  have "unat (ucast ?o :: 64 word) = 512 * (unat sector mod 8)"
    by (simp only: unat_ucast_up unat_offset)
  moreover have "512 * (unat sector mod 8) \<le> (4096::nat)" by simp
  ultimately have "(ucast ?o :: 64 word) \<le> PAGE_SIZE"
    by (simp only: word_le_nat_alt unat_PAGE_SIZE)
  then have "unat (PAGE_SIZE - ucast ?o) = unat PAGE_SIZE - unat (ucast ?o :: 64 word)"
    by (rule unat_sub)
  then show ?thesis
    by (simp only: unat_ucast_up unat_offset unat_PAGE_SIZE)
qed

lemma unat_copy:
  "unat (min n (PAGE_SIZE - ucast (ucast (push_bit SECTOR_SHIFT (sector AND (PAGE_SECTORS - 1))) :: uint)))
     = min (unat n) (4096 - 512 * (unat sector mod 8))"
  by (simp only: unat_min unat_room)

lemma copy_less:
  "(min n (PAGE_SIZE - ucast (ucast (push_bit SECTOR_SHIFT (sector AND (PAGE_SECTORS - 1))) :: uint)) < n)
     = (4096 - 512 * (unat sector mod 8) < unat n)"
  unfolding word_less_nat_alt unat_copy by auto

lemma unat_rest:
  "unat (n - min n (PAGE_SIZE - ucast (ucast (push_bit SECTOR_SHIFT (sector AND (PAGE_SECTORS - 1))) :: uint)))
     = unat n - min (unat n) (4096 - 512 * (unat sector mod 8))"
proof -
  have "min n (PAGE_SIZE - ucast (ucast (push_bit SECTOR_SHIFT (sector AND (PAGE_SECTORS - 1))) :: uint)) \<le> n"
    by simp
  from unat_sub[OF this] show ?thesis by (simp only: unat_copy)
qed

lemma unat_plus_of_nat:
  "unat ((s :: 64 word) + of_nat k) = (unat s + k) mod 18446744073709551616"
  by (simp add: unat_word_ariths unat_of_nat mod_add_right_eq)

lemma sector2_eq:
  assumes "4096 - 512 * (unat sector mod 8) < unat n"
  shows "sector + drop_bit SECTOR_SHIFT (min n (PAGE_SIZE - ucast (ucast (push_bit SECTOR_SHIFT (sector AND (PAGE_SECTORS - 1))) :: uint)))
     = sector + of_nat (8 - unat sector mod 8)"
proof -
  let ?c = "min n (PAGE_SIZE - ucast (ucast (push_bit SECTOR_SHIFT (sector AND (PAGE_SECTORS - 1))) :: uint))"
  have "unat ?c = 4096 - 512 * (unat sector mod 8)"
    unfolding unat_copy using assms by simp
  moreover have "unat (drop_bit SECTOR_SHIFT ?c) = unat ?c div 512"
    by (simp add: unat_drop_bit_eq drop_bit_eq_div SECTOR_SHIFT_def unat_div)
  moreover have "(4096 - 512 * (unat sector mod 8)) div 512 = 8 - unat sector mod 8"
  proof -
    have "4096 - 512 * (unat sector mod 8) = 512 * (8 - unat sector mod 8)"
      by (simp add: diff_mult_distrib2)
    then show ?thesis by simp
  qed
  ultimately have "unat (drop_bit SECTOR_SHIFT ?c) = 8 - unat sector mod 8"
    by simp
  then have "of_nat (unat (drop_bit SECTOR_SHIFT ?c)) = (of_nat (8 - unat sector mod 8) :: 64 word)"
    by (rule arg_cong)
  moreover have "of_nat (unat (drop_bit SECTOR_SHIFT ?c)) = drop_bit SECTOR_SHIFT ?c"
    by (simp only: of_nat_unat ucast_id)
  ultimately have "drop_bit SECTOR_SHIFT ?c = of_nat (8 - unat sector mod 8)"
    by metis
  then show ?thesis by (rule arg_cong)
qed

lemma aligned_up: "(a :: nat) + (8 - a mod 8) = 8 * (a div 8 + 1)"
proof -
  define q r where "q = a div 8" and "r = a mod 8"
  have "a = 8 * q + r" "r < 8" by (simp_all add: q_def r_def)
  then have "a + (8 - r) = 8 * (q + 1)" by simp
  then show ?thesis by (simp only: q_def r_def)
qed

lemma unat_next_sector:
  "unat ((sector :: 64 word) + of_nat (8 - unat sector mod 8))
     = 8 * ((unat sector div 8 + 1) mod 2305843009213693952)"
proof -
  have "unat (sector + of_nat (8 - unat sector mod 8))
      = (8 * (unat sector div 8 + 1)) mod (8 * 2305843009213693952)"
    unfolding unat_plus_of_nat aligned_up by simp
  then show ?thesis
    by (simp only: mult_mod_right)
qed

lemma next_page_index:
  "unat (drop_bit PAGE_SECTORS_SHIFT ((sector :: 64 word) + of_nat (8 - unat sector mod 8)))
     = (unat sector div 8 + 1) mod 2305843009213693952"
  unfolding unat_page_index unat_next_sector by simp

lemma next_page_neq:
  "drop_bit PAGE_SECTORS_SHIFT ((sector :: 64 word) + of_nat (8 - unat sector mod 8))
     \<noteq> drop_bit PAGE_SECTORS_SHIFT sector"
proof
  assume eq: "drop_bit PAGE_SECTORS_SHIFT (sector + of_nat (8 - unat sector mod 8))
     = drop_bit PAGE_SECTORS_SHIFT sector"
  have "(unat sector div 8 + 1) mod 2305843009213693952
      = unat (drop_bit PAGE_SECTORS_SHIFT (sector + of_nat (8 - unat sector mod 8)))"
    by (rule next_page_index[symmetric])
  also have "\<dots> = unat (drop_bit PAGE_SECTORS_SHIFT sector)"
    using eq by (rule arg_cong)
  also have "\<dots> = unat sector div 8"
    by (rule unat_page_index)
  finally have e: "(unat sector div 8 + 1) mod 2305843009213693952 = unat sector div 8" .
  have "unat sector div 8 < 2305843009213693952"
    using unat_lt64[of sector] by simp
  then show False using e
    by (cases "unat sector div 8 + 1 = 2305843009213693952") simp_all
qed

lemma seg_addr_eq:
  "seg_addr sector i =
     (drop_bit PAGE_SECTORS_SHIFT (sector + of_nat (i div 512)),
      512 * (unat (sector + of_nat (i div 512)) mod 8) + i mod 512)"
  unfolding seg_addr_def Let_def unat_push9_and7 by (simp add: SECTOR_SHIFT_def)

lemma seg_addr_first:
  assumes "512 * (unat sector mod 8) + i < 4096"
  shows "seg_addr sector i = (drop_bit PAGE_SECTORS_SHIFT sector, 512 * (unat sector mod 8) + i)"
proof -
  define k where "k = i div 512"
  define r where "r = unat sector mod 8"
  define q where "q = unat sector div 8"
  have s: "unat sector = 8 * q + r" and r8: "r < 8" by (simp_all add: q_def r_def)
  have i: "i = 512 * k + i mod 512" by (simp add: k_def)
  have "512 * r + 512 * k < 4096" using assms i by (simp add: r_def)
  then have k: "r + k < 8" by simp
  have "q < 2305843009213693952" using unat_lt64[of sector] by (simp add: q_def)
  then have "unat sector + k < 18446744073709551616" using s k by linarith
  then have u: "unat (sector + of_nat k) = 8 * q + (r + k)"
    unfolding unat_plus_of_nat by (simp add: s)
  have d: "unat (sector + of_nat k) div 8 = unat sector div 8" 
    unfolding u s using k r8 by simp
  have m: "unat (sector + of_nat k) mod 8 = r + k" 
    unfolding u using k by simp
  have "unat (drop_bit PAGE_SECTORS_SHIFT (sector + of_nat k)) = unat (drop_bit PAGE_SECTORS_SHIFT sector)"
    unfolding unat_page_index by (rule d)
  then have 1: "drop_bit PAGE_SECTORS_SHIFT (sector + of_nat k) = drop_bit PAGE_SECTORS_SHIFT sector"
    by (simp only: word_unat_eq_iff)
  have 2: "512 * (unat (sector + of_nat k) mod 8) + i mod 512 = 512 * r + i"
    unfolding m using i by simp
  show ?thesis
    unfolding seg_addr_eq using 1 2 by (simp only: k_def r_def)
qed

lemma seg_addr_second:
  assumes "4096 \<le> 512 * (unat sector mod 8) + i" "512 * (unat sector mod 8) + i < 8192"
  shows "seg_addr sector i = (drop_bit PAGE_SECTORS_SHIFT (sector + of_nat (8 - unat sector mod 8)),
           512 * (unat sector mod 8) + i - 4096)"
proof -
  define s2 where "s2 = sector + of_nat (8 - unat sector mod 8)"
  define j where "j = 512 * (unat sector mod 8) + i - 4096"
  define r where "r = unat sector mod 8"
  have r8: "r < 8" by (simp add: r_def)
  have i: "i = (8 - r) * 512 + j" using assms r8 by (simp add: j_def r_def diff_mult_distrib)
  have "i div 512 = (8 - r) + j div 512"
    by (subst i) simp
  then have "(of_nat (i div 512) :: 64 word) = of_nat (8 - r) + of_nat (j div 512)"
    by (simp only: of_nat_add)
  then have s: "sector + of_nat (i div 512) = s2 + of_nat (j div 512)"
    unfolding s2_def r_def by (simp only: add.assoc)
  have a: "unat s2 mod 8 = 0"
    unfolding s2_def unat_next_sector by simp
  have "j < 4096" using assms by (simp add: j_def)
  then have "512 * (unat s2 mod 8) + j < 4096" using a by simp
  then have "seg_addr s2 j = (drop_bit PAGE_SECTORS_SHIFT s2, 512 * (unat s2 mod 8) + j)"
    by (rule seg_addr_first)
  then have "seg_addr s2 j = (drop_bit PAGE_SECTORS_SHIFT s2, j)"
    using a by simp
  moreover have "i mod 512 = j mod 512" by (subst i) simp
  ultimately have "seg_addr sector i = (drop_bit PAGE_SECTORS_SHIFT s2, j)"
    unfolding seg_addr_eq s by simp
  then show ?thesis by (simp only: s2_def j_def)
qed

section \<open>Buffers and the page store\<close>

lemma memcpy_ok:
  "d + n \<le> length dst \<Longrightarrow> s + n \<le> length src \<Longrightarrow>
   memcpy dst d src s n = Inr (take d dst @ take n (drop s src) @ drop (d + n) dst)"
  by (simp add: memcpy_def)

lemma memset_ok:
  "d + n \<le> length dst \<Longrightarrow>
   memset dst d c n = Inr (take d dst @ replicate n c @ drop (d + n) dst)"
  by (simp add: memset_def)

lemma splice_length:
  "d + n \<le> length dst \<Longrightarrow> length xs = n \<Longrightarrow> length (take d dst @ xs @ drop (d + n) dst) = length dst"
  by simp

lemma splice_nth:
  assumes "d + n \<le> length dst" "length xs = n" "j < length dst"
  shows "(take d dst @ xs @ drop (d + n) dst) ! j = (if d \<le> j \<and> j < d + n then xs ! (j - d) else dst ! j)"
proof -
  have "j < d \<or> (d \<le> j \<and> j < d + n) \<or> d + n \<le> j" by linarith
  then show ?thesis
  proof (elim disjE)
    assume "j < d"
    then show ?thesis using assms by (simp add: nth_append)
  next
    assume a: "d \<le> j \<and> j < d + n"
    then have "j - d < n" by linarith
    then show ?thesis using a assms by (simp add: nth_append)
  next
    assume a: "d + n \<le> j"
    then have "\<not> j < d" "\<not> j - d < n" by linarith+
    then have "(take d dst @ xs @ drop (d + n) dst) ! j = drop (d + n) dst ! (j - d - n)"
      using assms by (simp add: nth_append)
    also have "\<dots> = dst ! j" using a assms by simp
    finally show ?thesis using a by simp
  qed
qed

lemma brd_inv_lookup:
  assumes "brd_inv brd" "map_of (brd_pages brd) idx = Some p"
  shows "index p = idx" "length (data p) = 4096"
proof -
  from assms(2) have "(idx, p) \<in> set (brd_pages brd)" by (rule map_of_SomeD)
  with assms(1) show "index p = idx" "length (data p) = 4096"
    by (auto simp: brd_inv_def unat_PAGE_SIZE)
qed

lemma brd_lookup_page_inv:
  "brd_inv brd \<Longrightarrow> brd_lookup_page brd sector = Inr (map_of (brd_pages brd) (drop_bit PAGE_SECTORS_SHIFT sector))"
  by (auto simp: brd_lookup_page_def radix_tree_lookup_def Let_def brd_inv_lookup split: option.splits)

lemma update_absent: "k \<notin> fst ` set al \<Longrightarrow> AList.update k v al = al @ [(k, v)]"
  by (induction al) auto

lemma brd_insert_page_eq:
  assumes "brd_inv brd"
  shows "brd_insert_page m brd sector =
     (case map_of (brd_pages brd) (drop_bit PAGE_SECTORS_SHIFT sector) of
        Some p \<Rightarrow> Inr (Some p, brd, m)
      | None \<Rightarrow>
          if \<not> shd m then Inr (None, brd, stl m)
          else if \<not> shd (stl m) then Inr (None, brd, stl (stl m))
          else Inr (Some \<lparr>index = drop_bit PAGE_SECTORS_SHIFT sector, data = replicate 4096 0\<rparr>,
                    brd\<lparr>brd_pages := brd_pages brd @
                       [(drop_bit PAGE_SECTORS_SHIFT sector,
                         \<lparr>index = drop_bit PAGE_SECTORS_SHIFT sector, data = replicate 4096 0\<rparr>)]\<rparr>,
                    stl (stl m)))"
proof (cases "map_of (brd_pages brd) (drop_bit PAGE_SECTORS_SHIFT sector)")
  case None
  then have "drop_bit PAGE_SECTORS_SHIFT sector \<notin> fst ` set (brd_pages brd)"
    by (simp add: map_of_eq_None_iff)
  with None show ?thesis
    by (simp add: brd_insert_page_def brd_lookup_page_inv[OF assms] alloc_page_def
        radix_tree_preload_def radix_tree_insert_def update_absent unat_PAGE_SIZE Let_def)
next
  case (Some p)
  then show ?thesis
    by (simp add: brd_insert_page_def brd_lookup_page_inv[OF assms])
qed

lemma brd_byte_cong:
  "map_of (brd_pages brd') (fst a) = map_of (brd_pages brd) (fst a) \<Longrightarrow> brd_byte brd' a = brd_byte brd a"
  by (simp add: brd_byte_def radix_tree_lookup_def)

lemma map_of_snoc:
  "map_of (al @ [(k, v)]) k' = (case map_of al k' of Some x \<Rightarrow> Some x | None \<Rightarrow> if k' = k then Some v else None)"
  by (simp add: map_add_def split: option.splits)

lemma brd_insert_page_props:
  assumes "brd_inv brd"
  obtains r brd' m' where
    "brd_insert_page m brd sector = Inr (r, brd', m')"
    "brd_inv brd'"
    "\<And>a. brd_byte brd' a = brd_byte brd a"
    "r = None \<Longrightarrow> brd' = brd"
    "r \<noteq> None \<Longrightarrow> fst ` set (brd_pages brd') = insert (drop_bit PAGE_SECTORS_SHIFT sector) (fst ` set (brd_pages brd))"
    "r \<noteq> None \<Longrightarrow> map_of (brd_pages brd') (drop_bit PAGE_SECTORS_SHIFT sector) = r"
    "get_capacity brd' = get_capacity brd"
proof (cases "map_of (brd_pages brd) (drop_bit PAGE_SECTORS_SHIFT sector)")
  case (Some p)
  then have k: "drop_bit PAGE_SECTORS_SHIFT sector \<in> fst ` set (brd_pages brd)"
    by (metis map_of_eq_None_iff option.distinct(1))
  show ?thesis
  proof (rule that[of "Some p" brd m])
    show "brd_insert_page m brd sector = Inr (Some p, brd, m)"
      by (simp add: brd_insert_page_eq[OF assms] Some)
    show "fst ` set (brd_pages brd) = insert (drop_bit PAGE_SECTORS_SHIFT sector) (fst ` set (brd_pages brd))"
      using k by auto
  qed (simp_all add: assms Some)
next
  case None
  let ?idx = "drop_bit PAGE_SECTORS_SHIFT sector"
  let ?zp = "\<lparr>index = ?idx, data = replicate 4096 0\<rparr>"
  let ?brd' = "brd\<lparr>brd_pages := brd_pages brd @ [(?idx, ?zp)]\<rparr>"
  from None have k: "?idx \<notin> fst ` set (brd_pages brd)"
    by (simp add: map_of_eq_None_iff)
  have inv': "brd_inv ?brd'"
    using assms k by (auto simp: brd_inv_def unat_PAGE_SIZE)
  have bytes: "brd_byte ?brd' a = brd_byte brd a" for a
  proof (cases "fst a = ?idx")
    case True
    then show ?thesis using None
      by (simp add: brd_byte_def radix_tree_lookup_def map_add_def)
  next
    case False
    then show ?thesis
      by (intro brd_byte_cong) (simp add: map_add_def split: option.splits)
  qed
  consider "\<not> shd m" | "shd m" "\<not> shd (stl m)" | "shd m" "shd (stl m)" by blast
  then show ?thesis
  proof cases
    case 1
    show ?thesis
      by (rule that[of None brd "stl m"]) (simp_all add: brd_insert_page_eq[OF assms] None 1 assms)
  next
    case 2
    show ?thesis
      by (rule that[of None brd "stl (stl m)"]) (simp_all add: brd_insert_page_eq[OF assms] None 2 assms)
  next
    case 3
    show ?thesis
    proof (rule that[of "Some ?zp" ?brd' "stl (stl m)"])
      show "brd_insert_page m brd sector = Inr (Some ?zp, ?brd', stl (stl m))"
        by (simp add: brd_insert_page_eq[OF assms] None 3)
      show "brd_inv ?brd'" by (rule inv')
      show "brd_byte ?brd' a = brd_byte brd a" for a by (rule bytes)
      show "map_of (brd_pages ?brd') ?idx = Some ?zp"
        using None by (simp add: map_add_def)
    qed (auto simp: get_capacity_def)
  qed
qed

lemma copy_to_brd_setup_eq:
  "copy_to_brd_setup m brd sector n =
     (case brd_insert_page m brd sector of
        Inl c \<Rightarrow> Inl c
      | Inr (None, brd1, m1) \<Rightarrow> Inr (- ENOSPC, brd1, m1)
      | Inr (Some _, brd1, m1) \<Rightarrow>
          if 4096 - 512 * (unat sector mod 8) < unat n then
            (case brd_insert_page m1 brd1 (sector + of_nat (8 - unat sector mod 8)) of
               Inl c \<Rightarrow> Inl c
             | Inr (None, brd2, m2) \<Rightarrow> Inr (- ENOSPC, brd2, m2)
             | Inr (Some _, brd2, m2) \<Rightarrow> Inr (0, brd2, m2))
          else Inr (0, brd1, m1))"
proof (cases "4096 - 512 * (unat sector mod 8) < unat n")
  case True
  show ?thesis
    unfolding copy_to_brd_setup_def Let_def copy_less sector2_eq[OF True] ..
next
  case False
  then show ?thesis
    unfolding copy_to_brd_setup_def Let_def copy_less
    by (simp split: sum.splits option.splits prod.splits)
qed

lemma copy_to_brd_setup_props:
  assumes inv: "brd_inv brd"
  obtains err brd' m' where
    "copy_to_brd_setup m brd sector n = Inr (err, brd', m')"
    "brd_inv brd'"
    "\<And>a. brd_byte brd' a = brd_byte brd a"
    "err = 0 \<or> err = - ENOSPC"
    "err = 0 \<Longrightarrow> drop_bit PAGE_SECTORS_SHIFT sector \<in> fst ` set (brd_pages brd')"
    "err = 0 \<Longrightarrow> 4096 - 512 * (unat sector mod 8) < unat n \<Longrightarrow>
       drop_bit PAGE_SECTORS_SHIFT (sector + of_nat (8 - unat sector mod 8)) \<in> fst ` set (brd_pages brd')"
    "fst ` set (brd_pages brd) \<subseteq> fst ` set (brd_pages brd')"
    "fst ` set (brd_pages brd') \<subseteq>
       insert (drop_bit PAGE_SECTORS_SHIFT sector) (fst ` set (brd_pages brd)) \<union>
       (if 4096 - 512 * (unat sector mod 8) < unat n
        then {drop_bit PAGE_SECTORS_SHIFT (sector + of_nat (8 - unat sector mod 8))} else {})"
    "get_capacity brd' = get_capacity brd"
proof -
  obtain r1 brd1 m1 where 1:
    "brd_insert_page m brd sector = Inr (r1, brd1, m1)"
    "brd_inv brd1"
    "\<And>a. brd_byte brd1 a = brd_byte brd a"
    "r1 = None \<Longrightarrow> brd1 = brd"
    "r1 \<noteq> None \<Longrightarrow> fst ` set (brd_pages brd1) = insert (drop_bit PAGE_SECTORS_SHIFT sector) (fst ` set (brd_pages brd))"
    "get_capacity brd1 = get_capacity brd"
    by (rule brd_insert_page_props[OF inv, of m sector]) blast
  let ?s2 = "sector + of_nat (8 - unat sector mod 8)"
  obtain r2 brd2 m2 where 2:
    "brd_insert_page m1 brd1 ?s2 = Inr (r2, brd2, m2)"
    "brd_inv brd2"
    "\<And>a. brd_byte brd2 a = brd_byte brd1 a"
    "r2 = None \<Longrightarrow> brd2 = brd1"
    "r2 \<noteq> None \<Longrightarrow> fst ` set (brd_pages brd2) = insert (drop_bit PAGE_SECTORS_SHIFT ?s2) (fst ` set (brd_pages brd1))"
    "get_capacity brd2 = get_capacity brd1"
    by (rule brd_insert_page_props[OF 1(2), of m1 ?s2]) blast
  show ?thesis
  proof (cases r1)
    case None
    show ?thesis
      by (rule that[of "- ENOSPC" brd m1])
        (use None 1 inv in \<open>auto simp: copy_to_brd_setup_eq ENOSPC_def\<close>)
  next
    case r1: (Some p1)
    show ?thesis
    proof (cases "4096 - 512 * (unat sector mod 8) < unat n")
      case False
      show ?thesis
        by (rule that[of 0 brd1 m1])
          (use r1 1 False in \<open>auto simp: copy_to_brd_setup_eq\<close>)
    next
      case True
      show ?thesis
      proof (cases r2)
        case None
        show ?thesis
          by (rule that[of "- ENOSPC" brd1 m2])
            (use r1 None 1 2 True in \<open>auto simp: copy_to_brd_setup_eq ENOSPC_def\<close>)
      next
        case (Some p2)
        show ?thesis
          by (rule that[of 0 brd2 m2])
            (use r1 Some 1 2 True in \<open>auto simp: copy_to_brd_setup_eq\<close>)
      qed
    qed
  qed
qed

section \<open>Writing into the store\<close>

lemma brd_inv_alt:
  "brd_inv brd \<longleftrightarrow>
     distinct (map fst (brd_pages brd)) \<and>
     (\<forall>k p. map_of (brd_pages brd) k = Some p \<longrightarrow> index p = k \<and> length (data p) = 4096)"
proof (cases "distinct (map fst (brd_pages brd))")
  case True
  have "(\<forall>kv \<in> set (brd_pages brd). index (snd kv) = fst kv \<and> length (data (snd kv)) = 4096)
      \<longleftrightarrow> (\<forall>k p. (k, p) \<in> set (brd_pages brd) \<longrightarrow> index p = k \<and> length (data p) = 4096)"
    by force
  with True show ?thesis
    by (simp add: brd_inv_def unat_PAGE_SIZE)
next
  case False
  then show ?thesis by (simp add: brd_inv_def)
qed

lemma brd_byte_present:
  "map_of (brd_pages brd) idx = Some p \<Longrightarrow> k < length (data p) \<Longrightarrow> brd_byte brd (idx, k) = data p ! k"
  by (simp add: brd_byte_def radix_tree_lookup_def)

lemma brd_byte_absent:
  "map_of (brd_pages brd) idx = None \<Longrightarrow> brd_byte brd (idx, k) = 0"
  by (simp add: brd_byte_def radix_tree_lookup_def)

text \<open>One \<open>memcpy\<close> into a page of the store.\<close>

lemma store_bytes:
  assumes inv: "brd_inv brd"
    and p: "map_of (brd_pages brd) idx = Some p"
    and po: "po + cnt \<le> 4096"
    and so: "soff + cnt \<le> length src"
  obtains d where
    "memcpy (data p) po src soff cnt = Inr d"
    "brd_inv (kunmap_atomic brd p d)"
    "map fst (brd_pages (kunmap_atomic brd p d)) = map fst (brd_pages brd)"
    "get_capacity (kunmap_atomic brd p d) = get_capacity brd"
    "\<And>a. brd_byte (kunmap_atomic brd p d) a =
       (if fst a = idx \<and> po \<le> snd a \<and> snd a < po + cnt then src ! (soff + (snd a - po))
        else brd_byte brd a)"
proof -
  from inv p have ip: "index p = idx" and lp: "length (data p) = 4096"
    by (simp_all add: brd_inv_alt)
  define d where "d = take po (data p) @ take cnt (drop soff src) @ drop (po + cnt) (data p)"
  have ld: "length d = 4096"
    using po so lp by (simp add: d_def)
  have nth: "d ! k = (if po \<le> k \<and> k < po + cnt then src ! (soff + (k - po)) else data p ! k)"
    if "k < 4096" for k
  proof -
    have "d ! k = (if po \<le> k \<and> k < po + cnt then take cnt (drop soff src) ! (k - po) else data p ! k)"
      unfolding d_def using po so lp that by (intro splice_nth) simp_all
    then show ?thesis using so by auto
  qed
  have m: "map_of (brd_pages (kunmap_atomic brd p d)) = (map_of (brd_pages brd))(idx \<mapsto> p\<lparr>data := d\<rparr>)"
    by (simp add: kunmap_atomic_def ip AList.update_conv')
  have key: "idx \<in> set (map fst (brd_pages brd))"
    using p by (metis map_of_eq_None_iff option.distinct(1) set_map)
  show ?thesis
  proof (rule that[of d])
    show "memcpy (data p) po src soff cnt = Inr d"
      using po so lp by (simp add: memcpy_def d_def)
    show keys: "map fst (brd_pages (kunmap_atomic brd p d)) = map fst (brd_pages brd)"
      using key by (simp add: kunmap_atomic_def ip AList.update_keys)
    show "brd_inv (kunmap_atomic brd p d)"
      unfolding brd_inv_alt keys m using inv ip ld by (auto simp: brd_inv_alt)
    show "get_capacity (kunmap_atomic brd p d) = get_capacity brd"
      by (simp add: kunmap_atomic_def get_capacity_def)
    show "brd_byte (kunmap_atomic brd p d) a =
       (if fst a = idx \<and> po \<le> snd a \<and> snd a < po + cnt then src ! (soff + (snd a - po))
        else brd_byte brd a)" for a
    proof (cases "fst a = idx")
      case False
      then show ?thesis
        by (simp add: brd_byte_def radix_tree_lookup_def m)
    next
      case True
      show ?thesis
      proof (cases "snd a < 4096")
        case True
        with \<open>fst a = idx\<close> nth[OF True] p lp ld show ?thesis
          by (simp add: brd_byte_def radix_tree_lookup_def m)
      next
        case False
        with \<open>fst a = idx\<close> p lp ld po show ?thesis
          by (simp add: brd_byte_def radix_tree_lookup_def m)
      qed
    qed
  qed
qed

lemma copy_to_brd_eq:
  assumes "brd_inv brd"
  shows "copy_to_brd brd src soff sector n =
     (case map_of (brd_pages brd) (drop_bit PAGE_SECTORS_SHIFT sector) of
        None \<Rightarrow> Inl BUG
      | Some page \<Rightarrow>
          (case memcpy (data page) (512 * (unat sector mod 8)) src soff
                  (min (unat n) (4096 - 512 * (unat sector mod 8))) of
             Inl c \<Rightarrow> Inl c
           | Inr dst \<Rightarrow>
               if 4096 - 512 * (unat sector mod 8) < unat n then
                 (case brd_lookup_page (kunmap_atomic brd page dst)
                         (sector + of_nat (8 - unat sector mod 8)) of
                    Inl c \<Rightarrow> Inl c
                  | Inr None \<Rightarrow> Inl BUG
                  | Inr (Some page2) \<Rightarrow>
                      (case memcpy (data page2) 0 src
                              (soff + min (unat n) (4096 - 512 * (unat sector mod 8)))
                              (unat n - min (unat n) (4096 - 512 * (unat sector mod 8))) of
                         Inl c \<Rightarrow> Inl c
                       | Inr dst2 \<Rightarrow> Inr (kunmap_atomic (kunmap_atomic brd page dst) page2 dst2)))
               else Inr (kunmap_atomic brd page dst)))"
proof (cases "4096 - 512 * (unat sector mod 8) < unat n")
  case True
  show ?thesis
    unfolding copy_to_brd_def Let_def copy_less unat_offset unat_copy unat_rest
      sector2_eq[OF True] brd_lookup_page_inv[OF assms]
    by (simp split: sum.splits option.splits)
next
  case False
  then show ?thesis
    unfolding copy_to_brd_def Let_def copy_less unat_offset unat_copy unat_rest
      brd_lookup_page_inv[OF assms]
    by (simp split: sum.splits option.splits)
qed

lemma key_lookup:
  "k \<in> fst ` set al \<Longrightarrow> \<exists>v. map_of al k = Some v"
  by (metis map_of_eq_None_iff not_Some_eq)

lemma copy_to_brd_eq':
  assumes "brd_inv brd"
    and "off = 512 * (unat sector mod 8)"
    and "c = min (unat n) (4096 - off)"
    and "idx1 = drop_bit PAGE_SECTORS_SHIFT sector"
    and "s2 = sector + of_nat (8 - unat sector mod 8)"
  shows "copy_to_brd brd src soff sector n =
     (case map_of (brd_pages brd) idx1 of
        None \<Rightarrow> Inl BUG
      | Some page \<Rightarrow>
          (case memcpy (data page) off src soff c of
             Inl c \<Rightarrow> Inl c
           | Inr dst \<Rightarrow>
               if 4096 - off < unat n then
                 (case brd_lookup_page (kunmap_atomic brd page dst) s2 of
                    Inl c \<Rightarrow> Inl c
                  | Inr None \<Rightarrow> Inl BUG
                  | Inr (Some page2) \<Rightarrow>
                      (case memcpy (data page2) 0 src (soff + c) (unat n - c) of
                         Inl c \<Rightarrow> Inl c
                       | Inr dst2 \<Rightarrow> Inr (kunmap_atomic (kunmap_atomic brd page dst) page2 dst2)))
               else Inr (kunmap_atomic brd page dst)))"
  unfolding assms(2-) by (rule copy_to_brd_eq[OF assms(1)])

lemma copy_to_brd_result:
  assumes inv: "brd_inv brd"
    and k1: "drop_bit PAGE_SECTORS_SHIFT sector \<in> fst ` set (brd_pages brd)"
    and k2: "4096 - 512 * (unat sector mod 8) < unat n \<Longrightarrow>
       drop_bit PAGE_SECTORS_SHIFT (sector + of_nat (8 - unat sector mod 8)) \<in> fst ` set (brd_pages brd)"
    and so: "soff + unat n \<le> length src"
    and n: "unat n \<le> 4096"
  obtains brd' where
    "copy_to_brd brd src soff sector n = Inr brd'"
    "brd_inv brd'"
    "map fst (brd_pages brd') = map fst (brd_pages brd)"
    "get_capacity brd' = get_capacity brd"
    "\<And>i. i < unat n \<Longrightarrow> brd_byte brd' (seg_addr sector i) = src ! (soff + i)"
    "\<And>a. a \<notin> seg_addr sector ` {..<unat n} \<Longrightarrow> brd_byte brd' a = brd_byte brd a"
proof -
  define off where "off = 512 * (unat sector mod 8)"
  define c where "c = min (unat n) (4096 - off)"
  define idx1 where "idx1 = drop_bit PAGE_SECTORS_SHIFT sector"
  define s2 where "s2 = sector + of_nat (8 - unat sector mod 8)"
  define idx2 where "idx2 = drop_bit PAGE_SECTORS_SHIFT s2"
  note eq = copy_to_brd_eq'[OF inv off_def c_def idx1_def s2_def, of src soff]
  have off: "off \<le> 3584" by (simp add: off_def)
  have c: "c \<le> unat n" "off + c \<le> 4096" using off by (simp_all add: c_def)
  have neq: "idx2 \<noteq> idx1" unfolding idx1_def idx2_def s2_def by (rule next_page_neq)
  from key_lookup[OF k1] obtain p1 where p1: "map_of (brd_pages brd) idx1 = Some p1"
    unfolding idx1_def by blast
  have so1: "soff + c \<le> length src" using so c(1) by linarith
  obtain d1 where 1:
    "memcpy (data p1) off src soff c = Inr d1"
    "brd_inv (kunmap_atomic brd p1 d1)"
    "map fst (brd_pages (kunmap_atomic brd p1 d1)) = map fst (brd_pages brd)"
    "get_capacity (kunmap_atomic brd p1 d1) = get_capacity brd"
    "\<And>a. brd_byte (kunmap_atomic brd p1 d1) a =
       (if fst a = idx1 \<and> off \<le> snd a \<and> snd a < off + c then src ! (soff + (snd a - off))
        else brd_byte brd a)"
    by (rule store_bytes[OF inv p1 c(2) so1]) blast
  define brd1 where "brd1 = kunmap_atomic brd p1 d1"
  note 1 = 1[folded brd1_def]
  have first: "seg_addr sector i = (idx1, off + i)" if "i < c" for i
    unfolding idx1_def off_def using that c(2) by (intro seg_addr_first) (simp add: off_def)
  show ?thesis
  proof (cases "4096 - off < unat n")
    case False
    then have cn: "c = unat n" by (simp add: c_def)
    show ?thesis
    proof (rule that[of brd1])
      show "copy_to_brd brd src soff sector n = Inr brd1"
        using False p1 1(1) by (simp add: eq brd1_def)
      show "brd_byte brd1 (seg_addr sector i) = src ! (soff + i)" if "i < unat n" for i
        using that by (simp add: first cn 1(5))
      show "brd_byte brd1 a = brd_byte brd a" if "a \<notin> seg_addr sector ` {..<unat n}" for a
      proof -
        have "\<not> (fst a = idx1 \<and> off \<le> snd a \<and> snd a < off + c)"
        proof
          assume h: "fst a = idx1 \<and> off \<le> snd a \<and> snd a < off + c"
          then have "snd a - off < c" by linarith
          then have "seg_addr sector (snd a - off) = (idx1, off + (snd a - off))" by (rule first)
          then have "seg_addr sector (snd a - off) = a" using h by (simp add: prod_eq_iff)
          moreover have "snd a - off < unat n" using h cn by linarith
          ultimately show False using that by (metis imageI lessThan_iff)
        qed
        then show ?thesis by (simp only: 1(5) if_False)
      qed
    qed (rule 1)+
  next
    case True
    then have cv: "c = 4096 - off" by (simp add: c_def)
    have True': "4096 - 512 * (unat sector mod 8) < unat n" using True by (simp add: off_def)
    from k2[OF True'] have "idx2 \<in> fst ` set (brd_pages brd1)"
      using 1(3) unfolding idx2_def s2_def by (metis set_map)
    from key_lookup[OF this] obtain p2 where p2: "map_of (brd_pages brd1) idx2 = Some p2"
      by blast
    have so2: "(soff + c) + (unat n - c) \<le> length src" using so c(1) by simp
    have po2: "0 + (unat n - c) \<le> 4096" using n by simp
    obtain d2 where 2:
      "memcpy (data p2) 0 src (soff + c) (unat n - c) = Inr d2"
      "brd_inv (kunmap_atomic brd1 p2 d2)"
      "map fst (brd_pages (kunmap_atomic brd1 p2 d2)) = map fst (brd_pages brd1)"
      "get_capacity (kunmap_atomic brd1 p2 d2) = get_capacity brd1"
      "\<And>a. brd_byte (kunmap_atomic brd1 p2 d2) a =
         (if fst a = idx2 \<and> 0 \<le> snd a \<and> snd a < 0 + (unat n - c) then src ! (soff + c + (snd a - 0))
          else brd_byte brd1 a)"
      by (rule store_bytes[OF 1(2) p2 po2 so2]) blast
    define brd2 where "brd2 = kunmap_atomic brd1 p2 d2"
    note 2 = 2[folded brd2_def]
    have second: "seg_addr sector i = (idx2, i - c)" if "c \<le> i" "i < unat n" for i
    proof -
      have "seg_addr sector i = (idx2, 512 * (unat sector mod 8) + i - 4096)"
        unfolding idx2_def s2_def using that n off cv
        by (intro seg_addr_second) (simp_all add: off_def)
      moreover have "512 * (unat sector mod 8) + i - 4096 = i - c"
        using off cv by (simp add: off_def)
      ultimately show ?thesis by simp
    qed
    show ?thesis
    proof (rule that[of brd2])
      show "copy_to_brd brd src soff sector n = Inr brd2"
        using True p1 1(1) p2 2(1)
        by (simp add: eq brd_lookup_page_inv[OF 1(2)] brd1_def[symmetric] brd2_def idx2_def[symmetric])
      show "brd_inv brd2" by (rule 2)
      show "map fst (brd_pages brd2) = map fst (brd_pages brd)" using 1(3) 2(3) by simp
      show "get_capacity brd2 = get_capacity brd" using 1(4) 2(4) by simp
      show "brd_byte brd2 (seg_addr sector i) = src ! (soff + i)" if "i < unat n" for i
      proof (cases "i < c")
        case True
        then show ?thesis using neq by (simp add: first 1(5) 2(5))
      next
        case False
        then have "seg_addr sector i = (idx2, i - c)" using that by (intro second) simp_all
        moreover have "i - c < unat n - c" "c + (i - c) = i" using False that by linarith+
        ultimately show ?thesis by (simp add: 2(5) add.assoc)
      qed
      show "brd_byte brd2 a = brd_byte brd a" if "a \<notin> seg_addr sector ` {..<unat n}" for a
      proof -
        have "\<not> (fst a = idx1 \<and> off \<le> snd a \<and> snd a < off + c)"
        proof
          assume h: "fst a = idx1 \<and> off \<le> snd a \<and> snd a < off + c"
          then have "snd a - off < c" by linarith
          then have "seg_addr sector (snd a - off) = (idx1, off + (snd a - off))" by (rule first)
          then have "seg_addr sector (snd a - off) = a" using h by (simp add: prod_eq_iff)
          moreover have "snd a - off < unat n" using h c(1) by linarith
          ultimately show False using that by (metis imageI lessThan_iff)
        qed
        moreover have "\<not> (fst a = idx2 \<and> snd a < unat n - c)"
        proof
          assume h: "fst a = idx2 \<and> snd a < unat n - c"
          then have lt: "c + snd a < unat n" by linarith
          then have "seg_addr sector (c + snd a) = (idx2, c + snd a - c)"
            by (intro second) simp_all
          then have "seg_addr sector (c + snd a) = a" using h by (simp add: prod_eq_iff)
          then show False using that lt by (metis imageI lessThan_iff)
        qed
        ultimately show ?thesis by (simp only: 1(5) 2(5) if_False add_0 le0 simp_thms)
      qed
    qed
  qed
qed

section \<open>Reading from the store\<close>

lemma copy_from_brd_eq:
  assumes "brd_inv brd"
    and "off = 512 * (unat sector mod 8)"
    and "c = min (unat n) (4096 - off)"
    and "idx1 = drop_bit PAGE_SECTORS_SHIFT sector"
    and "idx2 = drop_bit PAGE_SECTORS_SHIFT (sector + of_nat (8 - unat sector mod 8))"
  shows "copy_from_brd dst doff brd sector n =
     (case (case map_of (brd_pages brd) idx1 of
              Some p \<Rightarrow> memcpy dst doff (data p) off c
            | None \<Rightarrow> memset dst doff 0 c) of
        Inl x \<Rightarrow> Inl x
      | Inr dst1 \<Rightarrow>
          if 4096 - off < unat n then
            (case map_of (brd_pages brd) idx2 of
               Some p \<Rightarrow> memcpy dst1 (doff + c) (data p) 0 (unat n - c)
             | None \<Rightarrow> memset dst1 (doff + c) 0 (unat n - c))
          else Inr dst1)"
proof (cases "4096 - 512 * (unat sector mod 8) < unat n")
  case True
  show ?thesis
    unfolding assms(2-) copy_from_brd_def Let_def copy_less unat_offset unat_copy unat_rest
      sector2_eq[OF True] brd_lookup_page_inv[OF assms(1)]
    by (simp split: sum.splits option.splits)
next
  case False
  then show ?thesis
    unfolding assms(2-) copy_from_brd_def Let_def copy_less unat_offset unat_copy unat_rest
      brd_lookup_page_inv[OF assms(1)]
    by (simp split: sum.splits option.splits)
qed

text \<open>One \<open>memcpy\<close> out of a page of the store, or the \<open>memset\<close> that stands in for it.\<close>

lemma load_bytes:
  assumes inv: "brd_inv brd"
    and po: "po + cnt \<le> 4096"
    and d: "doff + cnt \<le> length dst"
  shows "(case map_of (brd_pages brd) idx of
            Some p \<Rightarrow> memcpy dst doff (data p) po cnt
          | None \<Rightarrow> memset dst doff 0 cnt)
       = Inr (take doff dst @ map (\<lambda>k. brd_byte brd (idx, po + k)) [0..<cnt] @ drop (doff + cnt) dst)"
proof (cases "map_of (brd_pages brd) idx")
  case None
  have "map (\<lambda>k. brd_byte brd (idx, po + k)) [0..<cnt] = replicate cnt 0"
    by (simp add: brd_byte_absent[OF None] map_replicate_const)
  then show ?thesis using None d by (simp add: memset_def)
next
  case (Some p)
  with inv have lp: "length (data p) = 4096" by (simp add: brd_inv_alt)
  have "take cnt (drop po (data p)) = map (\<lambda>k. brd_byte brd (idx, po + k)) [0..<cnt]"
  proof (rule nth_equalityI)
    show "length (take cnt (drop po (data p))) = length (map (\<lambda>k. brd_byte brd (idx, po + k)) [0..<cnt])"
      using po lp by simp
    fix i assume "i < length (take cnt (drop po (data p)))"
    then have i: "i < cnt" by simp
    then have "po + i < length (data p)" using po lp by linarith
    then show "take cnt (drop po (data p)) ! i = map (\<lambda>k. brd_byte brd (idx, po + k)) [0..<cnt] ! i"
      using i by (simp add: brd_byte_present[OF Some])
  qed
  then show ?thesis using Some d po lp by (simp add: memcpy_def)
qed

lemma copy_from_brd_result:
  assumes inv: "brd_inv brd"
    and d: "doff + unat n \<le> length dst"
    and n: "unat n \<le> 4096"
  shows "copy_from_brd dst doff brd sector n =
     Inr (take doff dst @ map (\<lambda>i. brd_byte brd (seg_addr sector i)) [0..<unat n] @ drop (doff + unat n) dst)"
proof -
  define off where "off = 512 * (unat sector mod 8)"
  define c where "c = min (unat n) (4096 - off)"
  define idx1 where "idx1 = drop_bit PAGE_SECTORS_SHIFT sector"
  define idx2 where "idx2 = drop_bit PAGE_SECTORS_SHIFT (sector + of_nat (8 - unat sector mod 8))"
  note eq = copy_from_brd_eq[OF inv off_def c_def idx1_def idx2_def, of dst doff]
  have off: "off \<le> 3584" by (simp add: off_def)
  have c: "c \<le> unat n" "off + c \<le> 4096" using off by (simp_all add: c_def)
  define f where "f = (\<lambda>i. brd_byte brd (seg_addr sector i))"
  define X1 where "X1 = map f [0..<c]"
  define dst1 where "dst1 = take doff dst @ X1 @ drop (doff + c) dst"
  have first: "seg_addr sector i = (idx1, off + i)" if "i < c" for i
    unfolding idx1_def off_def using that c(2) by (intro seg_addr_first) (simp add: off_def)
  have "map (\<lambda>k. brd_byte brd (idx1, off + k)) [0..<c] = X1"
    unfolding X1_def f_def by (rule map_cong) (simp_all add: first)
  moreover have "doff + c \<le> length dst" using d c(1) by linarith
  ultimately have 1: "(case map_of (brd_pages brd) idx1 of
            Some p \<Rightarrow> memcpy dst doff (data p) off c
          | None \<Rightarrow> memset dst doff 0 c) = Inr dst1"
    using load_bytes[OF inv c(2), of doff dst idx1] by (simp add: dst1_def)
  show ?thesis
  proof (cases "4096 - off < unat n")
    case False
    then have "c = unat n" by (simp add: c_def)
    then show ?thesis using False 1 by (simp add: eq dst1_def X1_def f_def)
  next
    case True
    then have cv: "c = 4096 - off" by (simp add: c_def)
    define X2 where "X2 = map (\<lambda>k. f (c + k)) [0..<unat n - c]"
    have second: "seg_addr sector (c + k) = (idx2, 0 + k)" if "k < unat n - c" for k
    proof -
      have "seg_addr sector (c + k) = (idx2, 512 * (unat sector mod 8) + (c + k) - 4096)"
        unfolding idx2_def using that n off cv
        by (intro seg_addr_second) (simp_all add: off_def)
      moreover have "512 * (unat sector mod 8) + (c + k) - 4096 = k"
        using off cv by (simp add: off_def)
      ultimately show ?thesis by simp
    qed
    have x2: "map (\<lambda>k. brd_byte brd (idx2, 0 + k)) [0..<unat n - c] = X2"
      unfolding X2_def f_def by (rule map_cong) (simp_all add: second)
    have l1: "length dst1 = length dst" "length X1 = c"
      using d c(1) by (simp_all add: dst1_def X1_def)
    have "(doff + c) + (unat n - c) \<le> length dst1" using d c(1) l1 by simp
    moreover have "0 + (unat n - c) \<le> 4096" using n by simp
    ultimately have 2: "(case map_of (brd_pages brd) idx2 of
               Some p \<Rightarrow> memcpy dst1 (doff + c) (data p) 0 (unat n - c)
             | None \<Rightarrow> memset dst1 (doff + c) 0 (unat n - c))
        = Inr (take (doff + c) dst1 @ X2 @ drop (doff + c + (unat n - c)) dst1)"
      using load_bytes[OF inv, of 0 "unat n - c" "doff + c" dst1 idx2] x2 by simp
    have t: "take (doff + c) dst1 = take doff dst @ X1"
      using d c(1) l1 by (simp add: dst1_def)
    have dr: "drop (doff + c + (unat n - c)) dst1 = drop (doff + unat n) dst"
      using d c(1) l1 by (simp add: dst1_def add.commute[of "unat n" doff])
    have "[0..<c + (unat n - c)] = [0..<c] @ [c..<c + (unat n - c)]"
      by (rule upt_add_eq_append) simp
    moreover have "map (\<lambda>k. c + k) [0..<unat n - c] = [c..<c + (unat n - c)]"
      using map_add_upt[of c "unat n - c"] by (simp add: add.commute[of c])
    moreover have "c + (unat n - c) = unat n" using c(1) by simp
    ultimately have "[0..<unat n] = [0..<c] @ map (\<lambda>k. c + k) [0..<unat n - c]"
      by simp
    then have "map f [0..<unat n] = X1 @ X2"
      by (simp add: X1_def X2_def comp_def)
    then show ?thesis
      using True 1 2 by (simp add: eq t dr f_def)
  qed
qed

section \<open>Evaluating the driver on a concrete device\<close>

text \<open>The definitions of the transfer path, for evaluating it on a concrete device.\<close>

lemmas brd_eval = brd_do_bvec_def op_is_write_def copy_to_brd_setup_def copy_to_brd_def copy_from_brd_def
  brd_insert_page_def brd_lookup_page_def radix_tree_lookup_def radix_tree_insert_def alloc_page_def
  radix_tree_preload_def kunmap_atomic_def memcpy_def memset_def
  PAGE_SIZE_def PAGE_SHIFT_def SECTOR_SHIFT_def PAGE_SECTORS_SHIFT_def PAGE_SECTORS_def EEXIST_def ENOSPC_def
  Let_def

lemmas bio_eval = brd_submit_bio_def bio_end_sector_def get_capacity_def bio_op_def bio_io_error_def
  bio_endio_def

section \<open>Inserting a page\<close>

text \<open>
  C3. \<open>brd_insert_page\<close> on a store that satisfies its invariant. A page already filed
  under the index of the sector is returned, and device and allocator are unchanged.
  With no page there and memory to be had, a zero-filled page is returned that is now
  filed under the index, with that index recorded in it, and every other entry is as
  before. \<open>NULL\<close> is returned only when there was no page and \<open>alloc_page\<close> or
  \<open>radix_tree_preload\<close> failed, and then the device is unchanged.
\<close>

theorem brd_insert_page_spec:
  assumes "brd_inv brd"
  shows "(\<forall>p. radix_tree_lookup (brd_pages brd) (drop_bit PAGE_SECTORS_SHIFT sector) = Some p
            \<longrightarrow> brd_insert_page m brd sector = Inr (Some p, brd, m))
       \<and> (radix_tree_lookup (brd_pages brd) (drop_bit PAGE_SECTORS_SHIFT sector) = None \<and> shd m \<and> shd (stl m)
            \<longrightarrow> (\<exists>p brd'. brd_insert_page m brd sector = Inr (Some p, brd', stl (stl m))
                   \<and> radix_tree_lookup (brd_pages brd') (drop_bit PAGE_SECTORS_SHIFT sector) = Some p
                   \<and> index p = drop_bit PAGE_SECTORS_SHIFT sector
                   \<and> data p = replicate (unat PAGE_SIZE) 0
                   \<and> brd_inv brd'
                   \<and> (\<forall>idx. idx \<noteq> drop_bit PAGE_SECTORS_SHIFT sector
                         \<longrightarrow> radix_tree_lookup (brd_pages brd') idx = radix_tree_lookup (brd_pages brd) idx)))
       \<and> (\<forall>brd' m'. brd_insert_page m brd sector = Inr (None, brd', m')
            \<longrightarrow> brd' = brd
                \<and> radix_tree_lookup (brd_pages brd) (drop_bit PAGE_SECTORS_SHIFT sector) = None
                \<and> (\<not> shd m \<or> \<not> shd (stl m)))
       \<and> (\<exists>r brd' m'. brd_insert_page m brd sector = Inr (r, brd', m'))"
proof (intro conjI)
  show "\<forall>p. radix_tree_lookup (brd_pages brd) (drop_bit PAGE_SECTORS_SHIFT sector) = Some p
            \<longrightarrow> brd_insert_page m brd sector = Inr (Some p, brd, m)"
    by (simp add: brd_insert_page_eq[OF assms] radix_tree_lookup_def)
next
  show "radix_tree_lookup (brd_pages brd) (drop_bit PAGE_SECTORS_SHIFT sector) = None \<and> shd m \<and> shd (stl m)
            \<longrightarrow> (\<exists>p brd'. brd_insert_page m brd sector = Inr (Some p, brd', stl (stl m))
                   \<and> radix_tree_lookup (brd_pages brd') (drop_bit PAGE_SECTORS_SHIFT sector) = Some p
                   \<and> index p = drop_bit PAGE_SECTORS_SHIFT sector
                   \<and> data p = replicate (unat PAGE_SIZE) 0
                   \<and> brd_inv brd'
                   \<and> (\<forall>idx. idx \<noteq> drop_bit PAGE_SECTORS_SHIFT sector
                         \<longrightarrow> radix_tree_lookup (brd_pages brd') idx = radix_tree_lookup (brd_pages brd) idx))"
  proof
    assume h: "radix_tree_lookup (brd_pages brd) (drop_bit PAGE_SECTORS_SHIFT sector) = None \<and> shd m \<and> shd (stl m)"
    then have k: "drop_bit PAGE_SECTORS_SHIFT sector \<notin> fst ` set (brd_pages brd)"
      by (simp add: radix_tree_lookup_def map_of_eq_None_iff)
    have "brd_inv (brd\<lparr>brd_pages := brd_pages brd @
        [(drop_bit PAGE_SECTORS_SHIFT sector,
          \<lparr>index = drop_bit PAGE_SECTORS_SHIFT sector, data = replicate 4096 0\<rparr>)]\<rparr>)"
      using assms k by (auto simp: brd_inv_def unat_PAGE_SIZE)
    with h show "\<exists>p brd'. brd_insert_page m brd sector = Inr (Some p, brd', stl (stl m))
                   \<and> radix_tree_lookup (brd_pages brd') (drop_bit PAGE_SECTORS_SHIFT sector) = Some p
                   \<and> index p = drop_bit PAGE_SECTORS_SHIFT sector
                   \<and> data p = replicate (unat PAGE_SIZE) 0
                   \<and> brd_inv brd'
                   \<and> (\<forall>idx. idx \<noteq> drop_bit PAGE_SECTORS_SHIFT sector
                         \<longrightarrow> radix_tree_lookup (brd_pages brd') idx = radix_tree_lookup (brd_pages brd) idx)"
      by (auto simp: brd_insert_page_eq[OF assms] radix_tree_lookup_def unat_PAGE_SIZE map_add_def
          split: option.splits)
  qed
next
  show "\<forall>brd' m'. brd_insert_page m brd sector = Inr (None, brd', m')
            \<longrightarrow> brd' = brd
                \<and> radix_tree_lookup (brd_pages brd) (drop_bit PAGE_SECTORS_SHIFT sector) = None
                \<and> (\<not> shd m \<or> \<not> shd (stl m))"
    by (auto simp: brd_insert_page_eq[OF assms] radix_tree_lookup_def split: option.splits if_splits)
next
  show "\<exists>r brd' m'. brd_insert_page m brd sector = Inr (r, brd', m')"
    by (simp add: brd_insert_page_eq[OF assms] split: option.splits)
qed

theorem brd_insert_page_spec_witness:
  "brd_inv \<lparr>brd_number = 0, first_minor = 0, disk_capacity = 16, brd_pages = []\<rparr>
   \<and> (radix_tree_lookup (brd_pages \<lparr>brd_number = 0, first_minor = 0, disk_capacity = 16, brd_pages = []\<rparr>)
         (drop_bit PAGE_SECTORS_SHIFT 9) = None \<and> shd (sconst True) \<and> shd (stl (sconst True)))
   \<and> (\<exists>p brd'. brd_insert_page (sconst True) \<lparr>brd_number = 0, first_minor = 0, disk_capacity = 16, brd_pages = []\<rparr> 9
             = Inr (Some p, brd', stl (stl (sconst True)))
         \<and> radix_tree_lookup (brd_pages brd') (drop_bit PAGE_SECTORS_SHIFT 9) = Some p
         \<and> index p = drop_bit PAGE_SECTORS_SHIFT 9)"
proof -
  have i: "brd_inv \<lparr>brd_number = 0, first_minor = 0, disk_capacity = 16, brd_pages = []\<rparr>"
    by (simp add: brd_inv_def)
  have h: "radix_tree_lookup (brd_pages \<lparr>brd_number = 0, first_minor = 0, disk_capacity = 16, brd_pages = []\<rparr>)
         (drop_bit PAGE_SECTORS_SHIFT 9) = None \<and> shd (sconst True) \<and> shd (stl (sconst True))"
    by (simp add: radix_tree_lookup_def)
  from brd_insert_page_spec[OF i, of 9 "sconst True"] i h show ?thesis by blast
qed

section \<open>Segments\<close>

text \<open>A write segment: what \<open>brd_do_bvec\<close> does after \<open>copy_to_brd_setup\<close>.\<close>

lemma brd_do_bvec_write_setup:
  assumes inv: "brd_inv brd" and w: "op_is_write op"
  obtains err brd1 m1 where
    "copy_to_brd_setup m brd sector (ucast len) = Inr (err, brd1, m1)"
    "brd_do_bvec m brd mem len off op sector =
       (if err \<noteq> 0 then Inr (err, brd1, mem, m1)
        else case copy_to_brd brd1 mem (unat off) sector (ucast len) of
               Inl c \<Rightarrow> Inl c
             | Inr brd2 \<Rightarrow> Inr (0, brd2, mem, m1))"
    "brd_inv brd1"
    "\<And>a. brd_byte brd1 a = brd_byte brd a"
    "err = 0 \<or> err = - ENOSPC"
    "err = 0 \<Longrightarrow> drop_bit PAGE_SECTORS_SHIFT sector \<in> fst ` set (brd_pages brd1)"
    "err = 0 \<Longrightarrow> 4096 - 512 * (unat sector mod 8) < unat len \<Longrightarrow>
       drop_bit PAGE_SECTORS_SHIFT (sector + of_nat (8 - unat sector mod 8)) \<in> fst ` set (brd_pages brd1)"
    "fst ` set (brd_pages brd) \<subseteq> fst ` set (brd_pages brd1)"
    "fst ` set (brd_pages brd1) \<subseteq>
       insert (drop_bit PAGE_SECTORS_SHIFT sector) (fst ` set (brd_pages brd)) \<union>
       (if 4096 - 512 * (unat sector mod 8) < unat len
        then {drop_bit PAGE_SECTORS_SHIFT (sector + of_nat (8 - unat sector mod 8))} else {})"
    "get_capacity brd1 = get_capacity brd"
proof -
  obtain err brd1 m1 where s:
    "copy_to_brd_setup m brd sector (ucast len) = Inr (err, brd1, m1)"
    "brd_inv brd1"
    "\<And>a. brd_byte brd1 a = brd_byte brd a"
    "err = 0 \<or> err = - ENOSPC"
    "err = 0 \<Longrightarrow> drop_bit PAGE_SECTORS_SHIFT sector \<in> fst ` set (brd_pages brd1)"
    "err = 0 \<Longrightarrow> 4096 - 512 * (unat sector mod 8) < unat (ucast len :: 64 word) \<Longrightarrow>
       drop_bit PAGE_SECTORS_SHIFT (sector + of_nat (8 - unat sector mod 8)) \<in> fst ` set (brd_pages brd1)"
    "fst ` set (brd_pages brd) \<subseteq> fst ` set (brd_pages brd1)"
    "fst ` set (brd_pages brd1) \<subseteq>
       insert (drop_bit PAGE_SECTORS_SHIFT sector) (fst ` set (brd_pages brd)) \<union>
       (if 4096 - 512 * (unat sector mod 8) < unat (ucast len :: 64 word)
        then {drop_bit PAGE_SECTORS_SHIFT (sector + of_nat (8 - unat sector mod 8))} else {})"
    "get_capacity brd1 = get_capacity brd"
    by (rule copy_to_brd_setup_props[OF inv, of m sector "ucast len"]) blast
  note s' = s[unfolded unat_ucast_up]
  show ?thesis
  proof (rule that[of err brd1 m1])
    show "brd_do_bvec m brd mem len off op sector =
       (if err \<noteq> 0 then Inr (err, brd1, mem, m1)
        else case copy_to_brd brd1 mem (unat off) sector (ucast len) of
               Inl c \<Rightarrow> Inl c
             | Inr brd2 \<Rightarrow> Inr (0, brd2, mem, m1))"
      using w by (simp add: brd_do_bvec_def s(1))
  qed (use s' in auto)
qed

text \<open>
  C4. A write segment on a store that satisfies its invariant. If \<open>brd_insert_page\<close>
  fails for the page of the sector, or succeeds there and, the segment crossing into the
  next page, fails for that one, then \<open>brd_do_bvec\<close> returns \<open>-ENOSPC\<close>. And whenever
  a write segment returns an error, the error is \<open>-ENOSPC\<close>, the caller's page is
  untouched, and every byte the device stores is what it was before the call.
\<close>

theorem brd_do_bvec_write_nospace:
  assumes "brd_inv brd" and "op_is_write op"
  shows "((\<exists>brd1 m1. brd_insert_page m brd sector = Inr (None, brd1, m1))
            \<longrightarrow> (\<exists>brd' m'. brd_do_bvec m brd mem len off op sector = Inr (- ENOSPC, brd', mem, m')))
       \<and> ((\<exists>p brd1 m1 brd2 m2. brd_insert_page m brd sector = Inr (Some p, brd1, m1)
              \<and> 4096 - 512 * (unat sector mod 8) < unat len
              \<and> brd_insert_page m1 brd1 (sector + of_nat (8 - unat sector mod 8)) = Inr (None, brd2, m2))
            \<longrightarrow> (\<exists>brd' m'. brd_do_bvec m brd mem len off op sector = Inr (- ENOSPC, brd', mem, m')))
       \<and> (\<forall>err brd' mem' m'. brd_do_bvec m brd mem len off op sector = Inr (err, brd', mem', m') \<and> err \<noteq> 0
            \<longrightarrow> err = - ENOSPC \<and> mem' = mem \<and> brd_inv brd' \<and> (\<forall>a. brd_byte brd' a = brd_byte brd a))"
proof (intro conjI)
  show "(\<exists>brd1 m1. brd_insert_page m brd sector = Inr (None, brd1, m1))
            \<longrightarrow> (\<exists>brd' m'. brd_do_bvec m brd mem len off op sector = Inr (- ENOSPC, brd', mem, m'))"
    using assms(2) by (auto simp: brd_do_bvec_def copy_to_brd_setup_eq ENOSPC_def)
next
  show "(\<exists>p brd1 m1 brd2 m2. brd_insert_page m brd sector = Inr (Some p, brd1, m1)
              \<and> 4096 - 512 * (unat sector mod 8) < unat len
              \<and> brd_insert_page m1 brd1 (sector + of_nat (8 - unat sector mod 8)) = Inr (None, brd2, m2))
            \<longrightarrow> (\<exists>brd' m'. brd_do_bvec m brd mem len off op sector = Inr (- ENOSPC, brd', mem, m'))"
    using assms(2) by (auto simp: brd_do_bvec_def copy_to_brd_setup_eq ENOSPC_def unat_ucast_up)
next
  obtain e brd1 m1 where s:
    "brd_do_bvec m brd mem len off op sector =
       (if e \<noteq> 0 then Inr (e, brd1, mem, m1)
        else case copy_to_brd brd1 mem (unat off) sector (ucast len) of
               Inl c \<Rightarrow> Inl c
             | Inr brd2 \<Rightarrow> Inr (0, brd2, mem, m1))"
    "brd_inv brd1"
    "\<And>a. brd_byte brd1 a = brd_byte brd a"
    "e = 0 \<or> e = - ENOSPC"
    by (rule brd_do_bvec_write_setup[OF assms, of m sector len mem off]) blast
  show "\<forall>err brd' mem' m'. brd_do_bvec m brd mem len off op sector = Inr (err, brd', mem', m') \<and> err \<noteq> 0
            \<longrightarrow> err = - ENOSPC \<and> mem' = mem \<and> brd_inv brd' \<and> (\<forall>a. brd_byte brd' a = brd_byte brd a)"
    using s(2-) by (auto simp: s(1) split: if_splits sum.splits)
qed

theorem brd_do_bvec_write_nospace_witness:
  "brd_inv \<lparr>brd_number = 0, first_minor = 0, disk_capacity = 16, brd_pages = []\<rparr>
   \<and> op_is_write 1
   \<and> (\<exists>p brd1 m1 brd2 m2.
         brd_insert_page (True ## True ## False ## sconst True)
           \<lparr>brd_number = 0, first_minor = 0, disk_capacity = 16, brd_pages = []\<rparr> 7 = Inr (Some p, brd1, m1)
         \<and> 4096 - 512 * (unat (7 :: sector_t) mod 8) < unat (1024 :: uint)
         \<and> brd_insert_page m1 brd1 (7 + of_nat (8 - unat (7 :: sector_t) mod 8)) = Inr (None, brd2, m2))
   \<and> (\<exists>brd' m'. brd_do_bvec (True ## True ## False ## sconst True)
           \<lparr>brd_number = 0, first_minor = 0, disk_capacity = 16, brd_pages = []\<rparr>
           (replicate 512 1 @ replicate 512 2) 1024 0 1 7
         = Inr (- ENOSPC, brd', replicate 512 1 @ replicate 512 2, m')
       \<and> (\<forall>a. brd_byte brd' a = brd_byte \<lparr>brd_number = 0, first_minor = 0, disk_capacity = 16, brd_pages = []\<rparr> a))"
proof -
  let ?dev = "\<lparr>brd_number = 0, first_minor = 0, disk_capacity = 16, brd_pages = []\<rparr>"
  let ?m = "True ## True ## False ## sconst True"
  let ?mem = "replicate 512 (1 :: byte) @ replicate 512 2"
  have i: "brd_inv ?dev" by (simp add: brd_inv_def)
  have w: "op_is_write 1" by (simp add: op_is_write_def)
  have a: "\<exists>p brd1 m1 brd2 m2.
         brd_insert_page ?m ?dev 7 = Inr (Some p, brd1, m1)
         \<and> 4096 - 512 * (unat (7 :: sector_t) mod 8) < unat (1024 :: uint)
         \<and> brd_insert_page m1 brd1 (7 + of_nat (8 - unat (7 :: sector_t) mod 8)) = Inr (None, brd2, m2)"
    by (simp add: brd_eval)
  note t = brd_do_bvec_write_nospace[OF i w, where m = ?m and sector = 7 and len = 1024 and mem = ?mem and off = 0]
  from t a obtain brd' m' where
    r: "brd_do_bvec ?m ?dev ?mem 1024 0 1 7 = Inr (- ENOSPC, brd', ?mem, m')"
    by blast
  have "- ENOSPC \<noteq> 0" by (simp add: ENOSPC_def)
  with t r have "\<forall>a. brd_byte brd' a = brd_byte ?dev a" by blast
  with i w a r show ?thesis by blast
qed

text \<open>
  C10. A read segment never fails. Whatever the state of the device, \<open>brd_do_bvec\<close> with
  a read operation returns no error code and leaves the device and the allocator alone;
  and on a device that satisfies the invariant of the store, with a segment that lies in
  the caller's page and is at most a page long, it does return, with 0.
\<close>

theorem brd_do_bvec_read_succeeds:
  assumes "\<not> op_is_write op"
  shows "(\<forall>err brd' mem' m'. brd_do_bvec m brd mem len off op sector = Inr (err, brd', mem', m')
            \<longrightarrow> err = 0 \<and> brd' = brd \<and> m' = m)
       \<and> (brd_inv brd \<and> unat off + unat len \<le> length mem \<and> unat len \<le> unat PAGE_SIZE
            \<longrightarrow> (\<exists>mem'. brd_do_bvec m brd mem len off op sector = Inr (0, brd, mem', m)))"
proof (rule conjI)
  show "\<forall>err brd' mem' m'. brd_do_bvec m brd mem len off op sector = Inr (err, brd', mem', m')
            \<longrightarrow> err = 0 \<and> brd' = brd \<and> m' = m"
    using assms by (auto simp: brd_do_bvec_def split: sum.splits)
next
  show "brd_inv brd \<and> unat off + unat len \<le> length mem \<and> unat len \<le> unat PAGE_SIZE
            \<longrightarrow> (\<exists>mem'. brd_do_bvec m brd mem len off op sector = Inr (0, brd, mem', m))"
  proof
  assume h: "brd_inv brd \<and> unat off + unat len \<le> length mem \<and> unat len \<le> unat PAGE_SIZE"
  then have "copy_from_brd mem (unat off) brd sector (ucast len) =
     Inr (take (unat off) mem @ map (\<lambda>i. brd_byte brd (seg_addr sector i)) [0..<unat (ucast len :: 64 word)]
          @ drop (unat off + unat (ucast len :: 64 word)) mem)"
    by (intro copy_from_brd_result) (simp_all add: unat_ucast_up unat_PAGE_SIZE)
  with assms show "\<exists>mem'. brd_do_bvec m brd mem len off op sector = Inr (0, brd, mem', m)"
    by (simp add: brd_do_bvec_def)
  qed
qed

theorem brd_do_bvec_read_succeeds_witness:
  "\<not> op_is_write 0 \<and>
   (brd_inv \<lparr>brd_number = 0, first_minor = 0, disk_capacity = 8, brd_pages = []\<rparr> \<and>
    unat (0 :: uint) + unat (512 :: uint) \<le> length (replicate 512 (1 :: byte)) \<and> unat (512 :: uint) \<le> unat PAGE_SIZE) \<and>
   (\<exists>mem'. brd_do_bvec (sconst False) \<lparr>brd_number = 0, first_minor = 0, disk_capacity = 8, brd_pages = []\<rparr>
       (replicate 512 1) 512 0 0 0
     = Inr (0, \<lparr>brd_number = 0, first_minor = 0, disk_capacity = 8, brd_pages = []\<rparr>, mem', sconst False))"
proof -
  have r: "\<not> op_is_write 0" by (simp add: op_is_write_def)
  have h: "brd_inv \<lparr>brd_number = 0, first_minor = 0, disk_capacity = 8, brd_pages = []\<rparr> \<and>
    unat (0 :: uint) + unat (512 :: uint) \<le> length (replicate 512 (1 :: byte)) \<and> unat (512 :: uint) \<le> unat PAGE_SIZE"
    by (simp add: brd_inv_def unat_PAGE_SIZE)
  from brd_do_bvec_read_succeeds[OF r, of "sconst False"
      "\<lparr>brd_number = 0, first_minor = 0, disk_capacity = 8, brd_pages = []\<rparr>" "replicate 512 1" 512 0 0]
    r h show ?thesis by blast
qed

lemma brd_do_bvec_write_ok:
  assumes inv: "brd_inv brd" and w: "op_is_write op"
    and len: "unat len \<le> unat PAGE_SIZE"
    and so: "unat off + unat len \<le> length mem"
    and ok: "brd_do_bvec m brd mem len off op sector = Inr (0, brd', mem', m')"
  shows "brd_inv brd'"
    and "mem' = mem"
    and "get_capacity brd' = get_capacity brd"
    and "\<And>i. i < unat len \<Longrightarrow> brd_byte brd' (seg_addr sector i) = mem ! (unat off + i)"
    and "\<And>a. a \<notin> seg_range sector len \<Longrightarrow> brd_byte brd' a = brd_byte brd a"
    and "fst ` set (brd_pages brd) \<subseteq> fst ` set (brd_pages brd')"
    and "fst ` set (brd_pages brd') \<subseteq>
       insert (drop_bit PAGE_SECTORS_SHIFT sector) (fst ` set (brd_pages brd)) \<union>
       (if 4096 - 512 * (unat sector mod 8) < unat len
        then {drop_bit PAGE_SECTORS_SHIFT (sector + of_nat (8 - unat sector mod 8))} else {})"
    and "drop_bit PAGE_SECTORS_SHIFT sector \<in> fst ` set (brd_pages brd')"
    and "4096 - 512 * (unat sector mod 8) < unat len \<Longrightarrow>
       drop_bit PAGE_SECTORS_SHIFT (sector + of_nat (8 - unat sector mod 8)) \<in> fst ` set (brd_pages brd')"
proof -
  obtain e brd1 m1 where s:
    "brd_do_bvec m brd mem len off op sector =
       (if e \<noteq> 0 then Inr (e, brd1, mem, m1)
        else case copy_to_brd brd1 mem (unat off) sector (ucast len) of
               Inl c \<Rightarrow> Inl c
             | Inr brd2 \<Rightarrow> Inr (0, brd2, mem, m1))"
    "brd_inv brd1"
    "\<And>a. brd_byte brd1 a = brd_byte brd a"
    "e = 0 \<Longrightarrow> drop_bit PAGE_SECTORS_SHIFT sector \<in> fst ` set (brd_pages brd1)"
    "e = 0 \<Longrightarrow> 4096 - 512 * (unat sector mod 8) < unat len \<Longrightarrow>
       drop_bit PAGE_SECTORS_SHIFT (sector + of_nat (8 - unat sector mod 8)) \<in> fst ` set (brd_pages brd1)"
    "fst ` set (brd_pages brd) \<subseteq> fst ` set (brd_pages brd1)"
    "fst ` set (brd_pages brd1) \<subseteq>
       insert (drop_bit PAGE_SECTORS_SHIFT sector) (fst ` set (brd_pages brd)) \<union>
       (if 4096 - 512 * (unat sector mod 8) < unat len
        then {drop_bit PAGE_SECTORS_SHIFT (sector + of_nat (8 - unat sector mod 8))} else {})"
    "get_capacity brd1 = get_capacity brd"
    by (rule brd_do_bvec_write_setup[OF inv w, of m sector len mem off]) blast
  from ok s(1) have e: "e = 0" by (auto split: if_splits)
  let ?n = "ucast len :: 64 word"
  have n: "unat ?n = unat len" by (rule unat_ucast_up)
  have k2: "4096 - 512 * (unat sector mod 8) < unat ?n \<Longrightarrow>
       drop_bit PAGE_SECTORS_SHIFT (sector + of_nat (8 - unat sector mod 8)) \<in> fst ` set (brd_pages brd1)"
    unfolding n by (rule s(5)[OF e])
  have so': "unat off + unat ?n \<le> length mem" unfolding n by (rule so)
  have n': "unat ?n \<le> 4096" unfolding n using len by (simp add: unat_PAGE_SIZE)
  obtain brd2 where c:
    "copy_to_brd brd1 mem (unat off) sector ?n = Inr brd2"
    "brd_inv brd2"
    "map fst (brd_pages brd2) = map fst (brd_pages brd1)"
    "get_capacity brd2 = get_capacity brd1"
    "\<And>i. i < unat ?n \<Longrightarrow> brd_byte brd2 (seg_addr sector i) = mem ! (unat off + i)"
    "\<And>a. a \<notin> seg_addr sector ` {..<unat ?n} \<Longrightarrow> brd_byte brd2 a = brd_byte brd1 a"
    by (rule copy_to_brd_result[OF s(2) s(4)[OF e] k2 so' n']) auto
  from ok s(1) e c(1) have r: "brd' = brd2" "mem' = mem" by simp_all
  have keys: "fst ` set (brd_pages brd2) = fst ` set (brd_pages brd1)"
    using c(3) by (metis set_map)
  show "brd_inv brd'" unfolding r by (rule c(2))
  show "mem' = mem" by (rule r(2))
  show "get_capacity brd' = get_capacity brd" unfolding r using c(4) s(8) by simp
  show "brd_byte brd' (seg_addr sector i) = mem ! (unat off + i)" if "i < unat len" for i
    unfolding r using c(5)[of i] that n by simp
  show "brd_byte brd' a = brd_byte brd a" if "a \<notin> seg_range sector len" for a
    unfolding r using c(6)[of a] that n s(3) by (simp add: seg_range_def)
  show "fst ` set (brd_pages brd) \<subseteq> fst ` set (brd_pages brd')"
    unfolding r keys by (rule s(6))
  show "fst ` set (brd_pages brd') \<subseteq>
       insert (drop_bit PAGE_SECTORS_SHIFT sector) (fst ` set (brd_pages brd)) \<union>
       (if 4096 - 512 * (unat sector mod 8) < unat len
        then {drop_bit PAGE_SECTORS_SHIFT (sector + of_nat (8 - unat sector mod 8))} else {})"
    unfolding r keys by (rule s(7))
  show "drop_bit PAGE_SECTORS_SHIFT sector \<in> fst ` set (brd_pages brd')"
    unfolding r keys by (rule s(4)[OF e])
  show "drop_bit PAGE_SECTORS_SHIFT (sector + of_nat (8 - unat sector mod 8)) \<in> fst ` set (brd_pages brd')"
    if "4096 - 512 * (unat sector mod 8) < unat len"
    unfolding r keys using that by (rule s(5)[OF e])
qed

lemma brd_do_bvec_read:
  assumes "brd_inv brd" and "\<not> op_is_write op"
    and "unat len \<le> unat PAGE_SIZE"
    and "unat off + unat len \<le> length mem"
  shows "brd_do_bvec m brd mem len off op sector =
     Inr (0, brd, take (unat off) mem @ map (\<lambda>i. brd_byte brd (seg_addr sector i)) [0..<unat len]
                  @ drop (unat off + unat len) mem, m)"
proof -
  have "copy_from_brd mem (unat off) brd sector (ucast len) =
     Inr (take (unat off) mem @ map (\<lambda>i. brd_byte brd (seg_addr sector i)) [0..<unat (ucast len :: 64 word)]
          @ drop (unat off + unat (ucast len :: 64 word)) mem)"
    using assms by (intro copy_from_brd_result) (simp_all add: unat_ucast_up unat_PAGE_SIZE)
  with assms(2) show ?thesis
    by (simp add: brd_do_bvec_def unat_ucast_up)
qed

text \<open>
  C1. Round trip. On a device whose store satisfies its invariant, let a write segment of
  at most a page, \<open>len\<close> bytes at offset \<open>off\<close> of the caller's page \<open>mem\<close>, succeed at
  \<open>sector\<close>. Then a read segment of the same length at the same sector succeeds and puts
  exactly those bytes into the reader's page \<open>buf\<close> at its offset, leaving the rest of
  that page and the device as they were. This holds for every sector.
\<close>

theorem brd_write_read_round_trip:
  assumes "brd_inv brd"
    and "op_is_write wop" and "\<not> op_is_write rop"
    and "unat len \<le> unat PAGE_SIZE"
    and "unat off + unat len \<le> length mem"
    and "unat off' + unat len \<le> length buf"
    and "brd_do_bvec m brd mem len off wop sector = Inr (0, brd', mem', m')"
  shows "brd_do_bvec m2 brd' buf len off' rop sector =
     Inr (0, brd',
          take (unat off') buf @ take (unat len) (drop (unat off) mem) @ drop (unat off' + unat len) buf,
          m2)"
proof -
  have inv': "brd_inv brd'"
    and bytes: "\<And>i. i < unat len \<Longrightarrow> brd_byte brd' (seg_addr sector i) = mem ! (unat off + i)"
    using brd_do_bvec_write_ok[OF assms(1,2,4,5,7)] by blast+
  have "map (\<lambda>i. brd_byte brd' (seg_addr sector i)) [0..<unat len] = take (unat len) (drop (unat off) mem)"
  proof (rule nth_equalityI)
    show "length (map (\<lambda>i. brd_byte brd' (seg_addr sector i)) [0..<unat len])
        = length (take (unat len) (drop (unat off) mem))"
      using assms(5) by simp
    fix i assume "i < length (map (\<lambda>i. brd_byte brd' (seg_addr sector i)) [0..<unat len])"
    then have i: "i < unat len" by simp
    then show "map (\<lambda>i. brd_byte brd' (seg_addr sector i)) [0..<unat len] ! i
        = take (unat len) (drop (unat off) mem) ! i"
      using assms(5) by (simp add: bytes)
  qed
  then show ?thesis
    using brd_do_bvec_read[OF inv' assms(3,4,6), of m2 sector] by simp
qed

theorem brd_write_read_round_trip_witness:
  "brd_inv \<lparr>brd_number = 0, first_minor = 0, disk_capacity = 16, brd_pages = []\<rparr>
   \<and> op_is_write 1 \<and> \<not> op_is_write 0
   \<and> unat (1024 :: uint) \<le> unat PAGE_SIZE
   \<and> unat (0 :: uint) + unat (1024 :: uint) \<le> length (replicate 512 (1 :: byte) @ replicate 512 2)
   \<and> unat (512 :: uint) + unat (1024 :: uint) \<le> length (replicate 4096 (9 :: byte))
   \<and> (\<exists>brd' m'. brd_do_bvec (sconst True)
           \<lparr>brd_number = 0, first_minor = 0, disk_capacity = 16, brd_pages = []\<rparr>
           (replicate 512 1 @ replicate 512 2) 1024 0 1 7
         = Inr (0, brd', replicate 512 1 @ replicate 512 2, m')
       \<and> brd_do_bvec (sconst False) brd' (replicate 4096 9) 1024 512 0 7
         = Inr (0, brd', replicate 512 9 @ replicate 512 1 @ replicate 512 2 @ replicate 2560 9, sconst False))"
proof -
  let ?dev = "\<lparr>brd_number = 0, first_minor = 0, disk_capacity = 16, brd_pages = []\<rparr>"
  let ?mem = "replicate 512 (1 :: byte) @ replicate 512 2"
  have i: "brd_inv ?dev" by (simp add: brd_inv_def)
  have w: "op_is_write 1" and r: "\<not> op_is_write 0" by (simp_all add: op_is_write_def)
  have l: "unat (1024 :: uint) \<le> unat PAGE_SIZE" by (simp add: unat_PAGE_SIZE)
  have s: "unat (0 :: uint) + unat (1024 :: uint) \<le> length ?mem" by simp
  have d: "unat (512 :: uint) + unat (1024 :: uint) \<le> length (replicate 4096 (9 :: byte))" by simp
  have "\<exists>brd' m'. brd_do_bvec (sconst True) ?dev ?mem 1024 0 1 7 = Inr (0, brd', ?mem, m')"
    by (simp add: brd_eval)
  then obtain brd' m' where
    wr: "brd_do_bvec (sconst True) ?dev ?mem 1024 0 1 7 = Inr (0, brd', ?mem, m')" by blast
  from brd_write_read_round_trip[OF i w r l s d wr, where ?m2.0 = "sconst False"]
  have "brd_do_bvec (sconst False) brd' (replicate 4096 9) 1024 512 0 7
         = Inr (0, brd', replicate 512 9 @ replicate 512 1 @ replicate 512 2 @ replicate 2560 9, sconst False)"
    by simp
  with i w r l s d wr show ?thesis by blast
qed

section \<open>The states a device reaches\<close>

lemma seg_range_first:
  assumes "0 < unat len"
  shows "\<exists>a \<in> seg_range sector len. fst a = drop_bit PAGE_SECTORS_SHIFT sector"
proof -
  have "512 * (unat sector mod 8) + 0 < 4096" by simp
  then have "seg_addr sector 0 = (drop_bit PAGE_SECTORS_SHIFT sector, 512 * (unat sector mod 8) + 0)"
    by (rule seg_addr_first)
  moreover have "seg_addr sector 0 \<in> seg_range sector len"
    using assms by (simp add: seg_range_def)
  ultimately show ?thesis by (metis fst_conv)
qed

lemma seg_range_second:
  assumes "4096 - 512 * (unat sector mod 8) < unat len" and "unat len \<le> 4096"
  shows "\<exists>a \<in> seg_range sector len.
           fst a = drop_bit PAGE_SECTORS_SHIFT (sector + of_nat (8 - unat sector mod 8))"
proof -
  define i where "i = 4096 - 512 * (unat sector mod 8)"
  have "4096 \<le> 512 * (unat sector mod 8) + i" "512 * (unat sector mod 8) + i < 8192"
    by (simp_all add: i_def)
  then have "seg_addr sector i = (drop_bit PAGE_SECTORS_SHIFT (sector + of_nat (8 - unat sector mod 8)),
           512 * (unat sector mod 8) + i - 4096)"
    by (rule seg_addr_second)
  moreover have "seg_addr sector i \<in> seg_range sector len"
    using assms by (simp add: seg_range_def i_def)
  ultimately show ?thesis by (metis fst_conv)
qed

lemma seg_range_fst:
  assumes "a \<in> seg_range sector len" and "unat len \<le> 4096"
  shows "fst a = drop_bit PAGE_SECTORS_SHIFT sector \<or>
         (4096 - 512 * (unat sector mod 8) < unat len \<and>
          fst a = drop_bit PAGE_SECTORS_SHIFT (sector + of_nat (8 - unat sector mod 8)))"
proof -
  from assms(1) obtain i where i: "i < unat len" "a = seg_addr sector i"
    by (auto simp: seg_range_def)
  show ?thesis
  proof (cases "512 * (unat sector mod 8) + i < 4096")
    case True
    then show ?thesis by (simp add: i(2) seg_addr_first)
  next
    case False
    then have "4096 \<le> 512 * (unat sector mod 8) + i" "512 * (unat sector mod 8) + i < 8192"
      using i(1) assms(2) by simp_all
    then have "seg_addr sector i = (drop_bit PAGE_SECTORS_SHIFT (sector + of_nat (8 - unat sector mod 8)),
           512 * (unat sector mod 8) + i - 4096)"
      by (rule seg_addr_second)
    moreover have "4096 - 512 * (unat sector mod 8) < unat len" using False i(1) by linarith
    ultimately show ?thesis by (simp add: i(2))
  qed
qed

text \<open>What any write segment that returns does to the store.\<close>

lemma brd_do_bvec_write_any:
  assumes inv: "brd_inv brd" and w: "op_is_write op"
    and len: "unat len \<le> unat PAGE_SIZE"
    and so: "unat off + unat len \<le> length mem"
    and res: "brd_do_bvec m brd mem len off op sector = Inr (err, brd', mem', m')"
  shows "brd_inv brd'
       \<and> (err \<noteq> 0 \<longrightarrow> (\<forall>a. brd_byte brd' a = brd_byte brd a))
       \<and> (err = 0 \<longrightarrow> (\<forall>a. a \<notin> seg_range sector len \<longrightarrow> brd_byte brd' a = brd_byte brd a))
       \<and> fst ` set (brd_pages brd) \<subseteq> fst ` set (brd_pages brd')
       \<and> fst ` set (brd_pages brd') \<subseteq>
           insert (drop_bit PAGE_SECTORS_SHIFT sector) (fst ` set (brd_pages brd)) \<union>
           (if 4096 - 512 * (unat sector mod 8) < unat len
            then {drop_bit PAGE_SECTORS_SHIFT (sector + of_nat (8 - unat sector mod 8))} else {})
       \<and> (err = 0 \<longrightarrow> drop_bit PAGE_SECTORS_SHIFT sector \<in> fst ` set (brd_pages brd'))
       \<and> (err = 0 \<longrightarrow> 4096 - 512 * (unat sector mod 8) < unat len \<longrightarrow>
           drop_bit PAGE_SECTORS_SHIFT (sector + of_nat (8 - unat sector mod 8)) \<in> fst ` set (brd_pages brd'))"
proof (cases "err = 0")
  case True
  note ok = brd_do_bvec_write_ok[OF inv w len so res[unfolded True]]
  from ok(1) ok(5) ok(6) ok(7) ok(8) ok(9) True show ?thesis
    by (intro conjI impI allI) simp_all
next
  case False
  obtain e brd1 m1 where s:
    "brd_do_bvec m brd mem len off op sector =
       (if e \<noteq> 0 then Inr (e, brd1, mem, m1)
        else case copy_to_brd brd1 mem (unat off) sector (ucast len) of
               Inl c \<Rightarrow> Inl c
             | Inr brd2 \<Rightarrow> Inr (0, brd2, mem, m1))"
    "brd_inv brd1"
    "\<And>a. brd_byte brd1 a = brd_byte brd a"
    "fst ` set (brd_pages brd) \<subseteq> fst ` set (brd_pages brd1)"
    "fst ` set (brd_pages brd1) \<subseteq>
       insert (drop_bit PAGE_SECTORS_SHIFT sector) (fst ` set (brd_pages brd)) \<union>
       (if 4096 - 512 * (unat sector mod 8) < unat len
        then {drop_bit PAGE_SECTORS_SHIFT (sector + of_nat (8 - unat sector mod 8))} else {})"
    by (rule brd_do_bvec_write_setup[OF inv w, of m sector len mem off]) blast
  from False res s(1) have b: "brd' = brd1" by (auto split: if_splits sum.splits)
  from s(2) s(3) s(4) s(5) False show ?thesis
    unfolding b by (intro conjI impI allI) simp_all
qed

lemma brd_do_bvec_read_same:
  assumes "\<not> op_is_write op"
    and "brd_do_bvec m brd mem len off op sector = Inr (err, brd', mem', m')"
  shows "brd' = brd" and "err = 0" and "m' = m"
  using assms by (auto simp: brd_do_bvec_def split: sum.splits)

text \<open>
  What holds in every state a device reaches: the invariant of the store; every byte that
  was never written is stored as zero; every byte written lies in a page of the store;
  and every page of the store lies in the range of a write that was attempted.
\<close>

lemma brd_reach_inv:
  assumes "brd_reach brd W A"
  shows "brd_inv brd
       \<and> (\<forall>a. a \<notin> W \<longrightarrow> brd_byte brd a = 0)
       \<and> (\<forall>a \<in> W. fst a \<in> fst ` set (brd_pages brd))
       \<and> (\<forall>idx \<in> fst ` set (brd_pages brd). \<exists>a \<in> A. fst a = idx)
       \<and> W \<subseteq> A"
  using assms
proof (induction rule: brd_reach.induct)
  case (created m rd_size max_part i brd m')
  then have "brd_pages brd = []"
    by (auto simp: brd_alloc_def split: if_splits)
  then show ?case
    by (simp add: brd_inv_def brd_byte_def radix_tree_lookup_def)
next
  case (transfer brd W A m mem len off op sector err brd' mem' m')
  note IH = transfer.IH
  from IH have inv: "brd_inv brd"
    and zero: "\<forall>a. a \<notin> W \<longrightarrow> brd_byte brd a = 0"
    and pres: "\<forall>a \<in> W. fst a \<in> fst ` set (brd_pages brd)"
    and att: "\<forall>idx \<in> fst ` set (brd_pages brd). \<exists>a \<in> A. fst a = idx"
    and sub: "W \<subseteq> A"
    by simp_all
  show ?case
  proof (cases "op_is_write op")
    case False
    from brd_do_bvec_read_same[OF False transfer.hyps(2)] have "brd' = brd" by blast
    with False IH show ?thesis by simp
  next
    case True
    note any = brd_do_bvec_write_any[OF inv True transfer.hyps(4) transfer.hyps(5) transfer.hyps(2)]
    from any have inv': "brd_inv brd'"
      and fail: "err \<noteq> 0 \<longrightarrow> (\<forall>a. brd_byte brd' a = brd_byte brd a)"
      and frame: "err = 0 \<longrightarrow> (\<forall>a. a \<notin> seg_range sector len \<longrightarrow> brd_byte brd' a = brd_byte brd a)"
      and mono: "fst ` set (brd_pages brd) \<subseteq> fst ` set (brd_pages brd')"
      and new: "fst ` set (brd_pages brd') \<subseteq>
           insert (drop_bit PAGE_SECTORS_SHIFT sector) (fst ` set (brd_pages brd)) \<union>
           (if 4096 - 512 * (unat sector mod 8) < unat len
            then {drop_bit PAGE_SECTORS_SHIFT (sector + of_nat (8 - unat sector mod 8))} else {})"
      and k1: "err = 0 \<longrightarrow> drop_bit PAGE_SECTORS_SHIFT sector \<in> fst ` set (brd_pages brd')"
      and k2: "err = 0 \<longrightarrow> 4096 - 512 * (unat sector mod 8) < unat len \<longrightarrow>
           drop_bit PAGE_SECTORS_SHIFT (sector + of_nat (8 - unat sector mod 8)) \<in> fst ` set (brd_pages brd')"
      by simp_all
    have len: "unat len \<le> 4096" using transfer.hyps(4) by (simp add: unat_PAGE_SIZE)
    let ?R = "seg_range sector len"
    let ?i1 = "drop_bit PAGE_SECTORS_SHIFT sector"
    let ?i2 = "drop_bit PAGE_SECTORS_SHIFT (sector + of_nat (8 - unat sector mod 8))"
    have keys: "\<forall>idx \<in> fst ` set (brd_pages brd'). \<exists>a \<in> A \<union> ?R. fst a = idx"
    proof
      fix idx assume "idx \<in> fst ` set (brd_pages brd')"
      with new have "idx \<in> insert ?i1 (fst ` set (brd_pages brd)) \<union>
           (if 4096 - 512 * (unat sector mod 8) < unat len then {?i2} else {})"
        by (rule subsetD)
      then consider "idx = ?i1" | "idx \<in> fst ` set (brd_pages brd)"
        | "4096 - 512 * (unat sector mod 8) < unat len" "idx = ?i2"
        by (auto split: if_splits)
      then show "\<exists>a \<in> A \<union> ?R. fst a = idx"
      proof cases
        case 1
        with seg_range_first[OF transfer.hyps(3), of sector] show ?thesis by blast
      next
        case 2
        with att show ?thesis by blast
      next
        case 3
        with seg_range_second[OF 3(1) len] show ?thesis by blast
      qed
    qed
    show ?thesis
    proof (cases "err = 0")
      case False
      from fail False have same: "\<forall>a. brd_byte brd' a = brd_byte brd a" by simp
      have z: "\<forall>a. a \<notin> W \<longrightarrow> brd_byte brd' a = 0"
        using same zero by simp
      have p: "\<forall>a \<in> W. fst a \<in> fst ` set (brd_pages brd')"
        using pres mono by blast
      have "W \<subseteq> A \<union> ?R" using sub by blast
      with True False inv' z p keys show ?thesis by simp
    next
      case ok: True
      have z: "\<forall>a. a \<notin> W \<union> ?R \<longrightarrow> brd_byte brd' a = 0"
        using frame ok zero by simp
      have p: "\<forall>a \<in> W \<union> ?R. fst a \<in> fst ` set (brd_pages brd')"
      proof
        fix a assume "a \<in> W \<union> ?R"
        then consider "a \<in> W" | "a \<in> ?R" by blast
        then show "fst a \<in> fst ` set (brd_pages brd')"
        proof cases
          case 1
          with pres mono show ?thesis by blast
        next
          case 2
          from seg_range_fst[OF 2 len] consider "fst a = ?i1"
            | "4096 - 512 * (unat sector mod 8) < unat len" "fst a = ?i2"
            by blast
          then show ?thesis
          proof cases
            case 1
            with k1 ok show ?thesis by simp
          next
            case 2
            with k2 ok show ?thesis by simp
          qed
        qed
      qed
      from sub have "W \<union> ?R \<subseteq> A \<union> ?R" by blast
      with inv' True ok z p keys show ?thesis by simp
    qed
  qed
qed

text \<open>
  A state a device reaches: a new device, then one write of 1024 bytes at sector 7, which
  crosses from page 0 into page 1, with memory for page 0 but none for page 1.
\<close>

lemma brd_reach_failed_write:
  "brd_reach \<lparr>brd_number = 0, first_minor = 0, disk_capacity = 16,
               brd_pages = [(0, \<lparr>index = 0, data = replicate 4096 0\<rparr>)]\<rparr>
     {} (seg_range 7 1024)"
proof -
  let ?dev0 = "\<lparr>brd_number = 0, first_minor = 0, disk_capacity = 16, brd_pages = []\<rparr>"
  let ?dev1 = "\<lparr>brd_number = 0, first_minor = 0, disk_capacity = 16,
               brd_pages = [(0, \<lparr>index = 0, data = replicate 4096 0\<rparr>)]\<rparr>"
  let ?mem = "replicate 512 (1 :: byte) @ replicate 512 2"
  have "brd_alloc (sconst True) 8 1 0 = (Some ?dev0, sconst True)"
    by (simp add: brd_alloc_def)
  then have 0: "brd_reach ?dev0 {} {}" by (rule brd_reach.created)
  have 1: "brd_do_bvec (True ## True ## False ## sconst True) ?dev0 ?mem 1024 0 1 7
      = Inr (- 28, ?dev1, ?mem, sconst True)"
    by (simp add: brd_eval)
  have "brd_reach ?dev1
       (if op_is_write 1 \<and> - 28 = (0 :: int) then {} \<union> seg_range 7 1024 else {})
       (if op_is_write 1 then {} \<union> seg_range 7 1024 else {})"
    by (rule brd_reach.transfer[OF 0 1]) (simp_all add: unat_PAGE_SIZE)
  then show ?thesis by (simp add: op_is_write_def)
qed

text \<open>
  C2. In a state the device has reached, a read segment of at most a page whose bytes have
  never been written returns 0 and fills its part of the caller's page with zero bytes.
  The device it returns is the device it was given, and so is the allocator: no page is
  allocated and no entry inserted.
\<close>

theorem brd_read_never_written:
  assumes "brd_reach brd W A"
    and "\<not> op_is_write op"
    and "unat len \<le> unat PAGE_SIZE"
    and "unat off + unat len \<le> length mem"
    and "seg_range sector len \<inter> W = {}"
  shows "brd_do_bvec m brd mem len off op sector =
     Inr (0, brd, take (unat off) mem @ replicate (unat len) 0 @ drop (unat off + unat len) mem, m)"
proof -
  from brd_reach_inv[OF assms(1)] have inv: "brd_inv brd"
    and zero: "\<forall>a. a \<notin> W \<longrightarrow> brd_byte brd a = 0"
    by simp_all
  have "map (\<lambda>i. brd_byte brd (seg_addr sector i)) [0..<unat len] = map (\<lambda>i. 0) [0..<unat len]"
  proof (rule map_cong)
    fix i assume "i \<in> set [0..<unat len]"
    then have "seg_addr sector i \<in> seg_range sector len" by (simp add: seg_range_def)
    with assms(5) have "seg_addr sector i \<notin> W" by blast
    with zero show "brd_byte brd (seg_addr sector i) = 0" by blast
  qed simp
  then have "map (\<lambda>i. brd_byte brd (seg_addr sector i)) [0..<unat len] = replicate (unat len) 0"
    by (simp add: map_replicate_const)
  then show ?thesis
    using brd_do_bvec_read[OF inv assms(2,3,4), of m sector] by simp
qed

theorem brd_read_never_written_witness:
  "brd_reach \<lparr>brd_number = 0, first_minor = 0, disk_capacity = 16,
               brd_pages = [(0, \<lparr>index = 0, data = replicate 4096 0\<rparr>)]\<rparr> {} (seg_range 7 1024)
   \<and> \<not> op_is_write 0
   \<and> unat (1024 :: uint) \<le> unat PAGE_SIZE
   \<and> unat (512 :: uint) + unat (1024 :: uint) \<le> length (replicate 4096 (9 :: byte))
   \<and> seg_range 7 1024 \<inter> {} = {}
   \<and> brd_do_bvec (sconst False)
        \<lparr>brd_number = 0, first_minor = 0, disk_capacity = 16,
          brd_pages = [(0, \<lparr>index = 0, data = replicate 4096 0\<rparr>)]\<rparr>
        (replicate 4096 9) 1024 512 0 7
      = Inr (0, \<lparr>brd_number = 0, first_minor = 0, disk_capacity = 16,
                  brd_pages = [(0, \<lparr>index = 0, data = replicate 4096 0\<rparr>)]\<rparr>,
             replicate 512 9 @ replicate 1024 0 @ replicate 2560 9, sconst False)"
proof -
  have r: "\<not> op_is_write 0" by (simp add: op_is_write_def)
  have l: "unat (1024 :: uint) \<le> unat PAGE_SIZE" by (simp add: unat_PAGE_SIZE)
  have d: "unat (512 :: uint) + unat (1024 :: uint) \<le> length (replicate 4096 (9 :: byte))" by simp
  have e: "seg_range 7 1024 \<inter> {} = {}" by simp
  from brd_read_never_written[OF brd_reach_failed_write r l d e, where m = "sconst False"]
  have "brd_do_bvec (sconst False)
        \<lparr>brd_number = 0, first_minor = 0, disk_capacity = 16,
          brd_pages = [(0, \<lparr>index = 0, data = replicate 4096 0\<rparr>)]\<rparr>
        (replicate 4096 9) 1024 512 0 7
      = Inr (0, \<lparr>brd_number = 0, first_minor = 0, disk_capacity = 16,
                  brd_pages = [(0, \<lparr>index = 0, data = replicate 4096 0\<rparr>)]\<rparr>,
             replicate 512 9 @ replicate 1024 0 @ replicate 2560 9, sconst False)"
    by simp
  with brd_reach_failed_write r l d e show ?thesis by blast
qed

text \<open>
  C6, as the claim states it, fails. After the write of \<open>brd_reach_failed_write\<close>, which
  returned \<open>-ENOSPC\<close> and copied nothing, no byte of the device has ever been written
  (the set of written addresses is empty) and yet page 0 is in the store:
  \<open>copy_to_brd_setup\<close> had inserted it before the allocation for page 1 failed, and
  nothing takes it out again.
\<close>

theorem brd_page_without_write_counterexample:
  "brd_reach \<lparr>brd_number = 0, first_minor = 0, disk_capacity = 16,
               brd_pages = [(0, \<lparr>index = 0, data = replicate 4096 0\<rparr>)]\<rparr> {} (seg_range 7 1024)
   \<and> radix_tree_lookup
         (brd_pages \<lparr>brd_number = 0, first_minor = 0, disk_capacity = 16,
                      brd_pages = [(0, \<lparr>index = 0, data = replicate 4096 0\<rparr>)]\<rparr>) 0
       = Some \<lparr>index = 0, data = replicate 4096 0\<rparr>"
  using brd_reach_failed_write by (simp add: radix_tree_lookup_def)

text \<open>
  C6, amended. In every state a device reaches: a byte that has been written lies in a page
  of the store; a page of the store lies in the range of some write segment that was
  attempted, whether it succeeded or failed with \<open>-ENOSPC\<close>; and a read segment
  returns the device it was given, so reads create no pages.
\<close>

theorem brd_pages_written_attempted:
  assumes "brd_reach brd W A"
  shows "(\<forall>a \<in> W. radix_tree_lookup (brd_pages brd) (fst a) \<noteq> None)
       \<and> (\<forall>idx. radix_tree_lookup (brd_pages brd) idx \<noteq> None \<longrightarrow> (\<exists>a \<in> A. fst a = idx))
       \<and> W \<subseteq> A
       \<and> (\<forall>m mem len off op sector err brd' mem' m'.
             \<not> op_is_write op \<and> brd_do_bvec m brd mem len off op sector = Inr (err, brd', mem', m')
             \<longrightarrow> brd' = brd)"
proof -
  from brd_reach_inv[OF assms]
  have pres: "\<forall>a \<in> W. fst a \<in> fst ` set (brd_pages brd)"
    and att: "\<forall>idx \<in> fst ` set (brd_pages brd). \<exists>a \<in> A. fst a = idx"
    and sub: "W \<subseteq> A"
    by simp_all
  have k: "radix_tree_lookup (brd_pages brd) idx \<noteq> None \<longleftrightarrow> idx \<in> fst ` set (brd_pages brd)" for idx
    by (simp add: radix_tree_lookup_def map_of_eq_None_iff)
  have rd: "\<forall>m mem len off op sector err brd' mem' m'.
             \<not> op_is_write op \<and> brd_do_bvec m brd mem len off op sector = Inr (err, brd', mem', m')
             \<longrightarrow> brd' = brd"
    using brd_do_bvec_read_same(1) by blast
  have att': "\<forall>idx. idx \<in> fst ` set (brd_pages brd) \<longrightarrow> (\<exists>a \<in> A. fst a = idx)"
    using att by blast
  show ?thesis
    unfolding k using pres att' sub rd by (intro conjI)
qed

theorem brd_pages_written_attempted_witness:
  "brd_reach \<lparr>brd_number = 0, first_minor = 0, disk_capacity = 16,
               brd_pages = [(0, \<lparr>index = 0, data = replicate 4096 0\<rparr>)]\<rparr> {} (seg_range 7 1024)
   \<and> radix_tree_lookup
         (brd_pages \<lparr>brd_number = 0, first_minor = 0, disk_capacity = 16,
                      brd_pages = [(0, \<lparr>index = 0, data = replicate 4096 0\<rparr>)]\<rparr>) 0 \<noteq> None
   \<and> (\<exists>a \<in> seg_range 7 1024. fst a = 0)"
proof -
  have "radix_tree_lookup
         (brd_pages \<lparr>brd_number = 0, first_minor = 0, disk_capacity = 16,
                      brd_pages = [(0, \<lparr>index = 0, data = replicate 4096 0\<rparr>)]\<rparr>) 0 \<noteq> None"
    by (simp add: radix_tree_lookup_def)
  with brd_pages_written_attempted[OF brd_reach_failed_write] brd_reach_failed_write
  show ?thesis by blast
qed

section \<open>Requests\<close>

text \<open>
  The end sector is computed in 64-bit arithmetic, as the driver computes it. Where the
  sum does not overflow it is the start sector plus the size in sectors.
\<close>

lemma bio_end_sector_no_wrap:
  assumes "unat (bi_sector b) + unat (bi_size b) div 512 < 2 ^ 64"
  shows "unat (bio_end_sector b) = unat (bi_sector b) + unat (bi_size b) div 512"
proof -
  have "unat (ucast (drop_bit SECTOR_SHIFT (bi_size b)) :: 64 word) = unat (bi_size b) div 512"
    unfolding unat_ucast_up by (simp add: unat_drop_bit_eq drop_bit_eq_div SECTOR_SHIFT_def unat_div)
  then show ?thesis
    using assms unfolding bio_end_sector_def
    by (simp add: unat_word_ariths)
qed

text \<open>
  C5. A request whose end sector, as \<open>brd_submit_bio\<close> computes it with \<open>bio_end_sector\<close>,
  exceeds the capacity of the device is completed with an I/O error before any segment
  is processed: the device, and with it the page store and every stored byte, the
  caller's pages and the allocator are as they were.
\<close>

theorem brd_submit_bio_out_of_range:
  assumes "get_capacity brd < bio_end_sector b"
  shows "brd_submit_bio m brd b = Inr (brd, b\<lparr>bi_status := BLK_STS_IOERR\<rparr>, m)"
  using assms by (simp add: brd_submit_bio_def bio_io_error_def bio_endio_def)

theorem brd_submit_bio_out_of_range_witness:
  "get_capacity \<lparr>brd_number = 0, first_minor = 0, disk_capacity = 8, brd_pages = []\<rparr>
     < bio_end_sector \<lparr>bi_sector = 8, bi_size = 512, bi_opf = 1, bi_status = BLK_STS_OK,
         bi_io_vec = [\<lparr>bv_page = replicate 4096 1, bv_len = 512, bv_offset = 0\<rparr>]\<rparr>
   \<and> brd_submit_bio (sconst True)
        \<lparr>brd_number = 0, first_minor = 0, disk_capacity = 8, brd_pages = []\<rparr>
        \<lparr>bi_sector = 8, bi_size = 512, bi_opf = 1, bi_status = BLK_STS_OK,
         bi_io_vec = [\<lparr>bv_page = replicate 4096 1, bv_len = 512, bv_offset = 0\<rparr>]\<rparr>
     = Inr (\<lparr>brd_number = 0, first_minor = 0, disk_capacity = 8, brd_pages = []\<rparr>,
            \<lparr>bi_sector = 8, bi_size = 512, bi_opf = 1, bi_status = BLK_STS_IOERR,
         bi_io_vec = [\<lparr>bv_page = replicate 4096 1, bv_len = 512, bv_offset = 0\<rparr>]\<rparr>,
            sconst True)"
proof -
  have h: "get_capacity \<lparr>brd_number = 0, first_minor = 0, disk_capacity = 8, brd_pages = []\<rparr>
     < bio_end_sector \<lparr>bi_sector = 8, bi_size = 512, bi_opf = 1, bi_status = BLK_STS_OK,
         bi_io_vec = [\<lparr>bv_page = replicate 4096 1, bv_len = 512, bv_offset = 0\<rparr>]\<rparr>"
    by (simp add: get_capacity_def bio_end_sector_def SECTOR_SHIFT_def)
  show ?thesis
    using h brd_submit_bio_out_of_range[OF h, of "sconst True"] by simp
qed

lemma brd_submit_segments_append:
  "brd_submit_segments m brd op sector (xs @ ys) =
     (case brd_submit_segments m brd op sector xs of
        Inl c \<Rightarrow> Inl c
      | Inr (err, brd1, xs', m1) \<Rightarrow>
          if err \<noteq> 0 then Inr (err, brd1, xs' @ ys, m1)
          else (case brd_submit_segments m1 brd1 op (sector_after sector xs) ys of
                  Inl c \<Rightarrow> Inl c
                | Inr (err', brd2, ys', m2) \<Rightarrow> Inr (err', brd2, xs' @ ys', m2)))"
proof (induction xs arbitrary: m brd sector)
  case Nil
  show ?case by (simp split: sum.splits prod.splits)
next
  case (Cons x xs)
  show ?case
    by (simp add: Cons.IH Let_def split: sum.splits prod.splits)
qed

lemma brd_do_bvec_write_mem:
  assumes "op_is_write op"
    and "brd_do_bvec m brd mem len off op sector = Inr (err, brd', mem', m')"
  shows "mem' = mem"
  using assms by (auto simp: brd_do_bvec_def split: sum.splits if_splits)

lemma brd_submit_segments_write_vecs:
  assumes "op_is_write op"
    and "brd_submit_segments m brd op sector vecs = Inr (err, brd', vecs', m')"
  shows "vecs' = vecs"
  using assms(2)
proof (induction vecs arbitrary: m brd sector err brd' vecs' m')
  case Nil
  then show ?case by simp
next
  case (Cons v vs)
  from Cons.prems obtain e brd1 mem m1 where
    d: "brd_do_bvec m brd (bv_page v) (bv_len v) (bv_offset v) op sector = Inr (e, brd1, mem, m1)"
    by (auto simp: Let_def split: sum.splits)
  from brd_do_bvec_write_mem[OF assms(1) d] have mem: "mem = bv_page v" .
  show ?case
  proof (cases "e = 0")
    case False
    with Cons.prems d mem show ?thesis by (simp add: Let_def)
  next
    case True
    with Cons.prems d obtain vs' where
      r: "brd_submit_segments m1 brd1 op (sector + ucast (drop_bit SECTOR_SHIFT (bv_len v))) vs
            = Inr (err, brd', vs', m')"
      and v: "vecs' = v\<lparr>bv_page := mem\<rparr> # vs'"
      by (auto simp: Let_def split: sum.splits)
    from Cons.IH[OF r] v mem show ?thesis by simp
  qed
qed

lemma brd_submit_segments_inv:
  assumes "brd_inv brd" and "\<forall>v \<in> set vecs. segment_ok v"
    and "brd_submit_segments m brd op sector vecs = Inr (err, brd', vecs', m')"
  shows "brd_inv brd'"
  using assms
proof (induction vecs arbitrary: m brd sector err brd' vecs' m')
  case Nil
  then show ?case by simp
next
  case (Cons v vs)
  from Cons.prems(3) obtain e brd1 mem m1 where
    d: "brd_do_bvec m brd (bv_page v) (bv_len v) (bv_offset v) op sector = Inr (e, brd1, mem, m1)"
    by (auto simp: Let_def split: sum.splits)
  from Cons.prems(2) have ok: "unat (bv_len v) \<le> unat PAGE_SIZE"
    "unat (bv_offset v) + unat (bv_len v) \<le> length (bv_page v)"
    by (simp_all add: segment_ok_def)
  have inv1: "brd_inv brd1"
  proof (cases "op_is_write op")
    case True
    from brd_do_bvec_write_any[OF Cons.prems(1) True ok d] show ?thesis by simp
  next
    case False
    from brd_do_bvec_read_same(1)[OF False d] Cons.prems(1) show ?thesis by simp
  qed
  show ?case
  proof (cases "e = 0")
    case False
    with Cons.prems(3) d inv1 show ?thesis by (simp add: Let_def)
  next
    case True
    with Cons.prems(3) d obtain vs' where
      r: "brd_submit_segments m1 brd1 op (sector + ucast (drop_bit SECTOR_SHIFT (bv_len v))) vs
            = Inr (err, brd', vs', m')"
      by (auto simp: Let_def split: sum.splits)
    from Cons.prems(2) have "\<forall>v \<in> set vs. segment_ok v" by simp
    from Cons.IH[OF inv1 this r] show ?thesis .
  qed
qed

lemma brd_do_bvec_write_fail:
  assumes "brd_inv brd" and "op_is_write op"
    and "brd_do_bvec m brd mem len off op sector = Inr (err, brd', mem', m')"
    and "err \<noteq> 0"
  shows "err = - ENOSPC" and "mem' = mem" and "brd_inv brd'" and "\<forall>a. brd_byte brd' a = brd_byte brd a"
proof -
  obtain e brd1 m1 where s:
    "brd_do_bvec m brd mem len off op sector =
       (if e \<noteq> 0 then Inr (e, brd1, mem, m1)
        else case copy_to_brd brd1 mem (unat off) sector (ucast len) of
               Inl c \<Rightarrow> Inl c
             | Inr brd2 \<Rightarrow> Inr (0, brd2, mem, m1))"
    "brd_inv brd1"
    "\<And>a. brd_byte brd1 a = brd_byte brd a"
    "e = 0 \<or> e = - ENOSPC"
    by (rule brd_do_bvec_write_setup[OF assms(1,2), of m sector len mem off]) blast
  from assms(3,4) s(1) have r: "err = e" "brd' = brd1" "mem' = mem"
    by (auto split: if_splits sum.splits)
  show "err = - ENOSPC" using r(1) assms(4) s(4) by simp
  show "mem' = mem" by (rule r(3))
  show "brd_inv brd'" unfolding r(2) by (rule s(2))
  show "\<forall>a. brd_byte brd' a = brd_byte brd a" unfolding r(2) using s(3) by simp
qed

text \<open>
  C7, amended. Let the capacity test pass, let the segments \<open>done\<close> all complete, and let the
  next segment \<open>bad\<close> return an error. Then \<open>brd_submit_bio\<close> stops there: the segments
  \<open>rest\<close> are not processed; the error is \<open>-ENOSPC\<close> of a write; every byte the device
  stores is as the completed segments left it; and what the caller gets back is the
  request with \<open>bi_status\<close> set to \<open>BLK_STS_IOERR\<close> and nothing else changed, so no
  count of completed segments.
\<close>

theorem brd_submit_bio_first_failure:
  assumes "brd_inv brd"
    and "\<not> get_capacity brd < bio_end_sector b"
    and "bi_io_vec b = done @ bad # rest"
    and "\<forall>v \<in> set done. segment_ok v"
    and "brd_submit_segments m brd (bio_op b) (bi_sector b) done = Inr (0, brd1, done', m1)"
    and "brd_do_bvec m1 brd1 (bv_page bad) (bv_len bad) (bv_offset bad) (bio_op b)
           (sector_after (bi_sector b) done) = Inr (err, brd2, mem, m2)"
    and "err \<noteq> 0"
  shows "brd_submit_bio m brd b = Inr (brd2, b\<lparr>bi_status := BLK_STS_IOERR\<rparr>, m2)
       \<and> op_is_write (bio_op b) \<and> err = - ENOSPC
       \<and> (\<forall>a. brd_byte brd2 a = brd_byte brd1 a)
       \<and> brd_segments_done m brd (bio_op b) (bi_sector b) (bi_io_vec b) = length done"
proof -
  have w: "op_is_write (bio_op b)"
    using brd_do_bvec_read_same(2)[OF _ assms(6)] assms(7) by blast
  have inv1: "brd_inv brd1"
    by (rule brd_submit_segments_inv[OF assms(1,4,5)])
  note fl = brd_do_bvec_write_fail[OF inv1 w assms(6,7)]
  have f: "err = - ENOSPC" "mem = bv_page bad" "\<forall>a. brd_byte brd2 a = brd_byte brd1 a"
    by (rule fl(1), rule fl(2), rule fl(4))
  have d: "done' = done"
    by (rule brd_submit_segments_write_vecs[OF w assms(5)])
  have "brd_submit_segments m brd (bio_op b) (bi_sector b) (done @ bad # rest)
      = Inr (err, brd2, done @ bad # rest, m2)"
    using assms(5,6,7) d f(2)
    by (simp add: brd_submit_segments_append Let_def)
  then have "brd_submit_segments m brd (bio_op b) (bi_sector b) (bi_io_vec b)
      = Inr (err, brd2, bi_io_vec b, m2)"
    by (simp only: assms(3))
  then have s: "brd_submit_bio m brd b = Inr (brd2, b\<lparr>bi_status := BLK_STS_IOERR\<rparr>, m2)"
    using assms(2,7)
    by (simp add: brd_submit_bio_def bio_io_error_def bio_endio_def)
  have n: "brd_segments_done m brd op sector (xs @ bad # rest) = length xs"
    if "brd_submit_segments m brd op sector xs = Inr (0, brd1, xs', m1)"
      and "brd_do_bvec m1 brd1 (bv_page bad) (bv_len bad) (bv_offset bad) op
           (sector_after sector xs) = Inr (err, brd2, mem, m2)"
    for m brd op sector xs xs'
    using that
  proof (induction xs arbitrary: m brd sector xs')
    case Nil
    then show ?case using assms(7) by simp
  next
    case (Cons x xs)
    from Cons.prems(1) obtain e brdx memx mx where
      dx: "brd_do_bvec m brd (bv_page x) (bv_len x) (bv_offset x) op sector = Inr (e, brdx, memx, mx)"
      by (auto simp: Let_def split: sum.splits)
    with Cons.prems(1) have e: "e = 0" by (auto simp: Let_def split: sum.splits if_splits)
    with Cons.prems(1) dx obtain xs'' where
      r: "brd_submit_segments mx brdx op (sector + ucast (drop_bit SECTOR_SHIFT (bv_len x))) xs
            = Inr (0, brd1, xs'', m1)"
      by (auto simp: Let_def split: sum.splits)
    from Cons.IH[OF r] Cons.prems(2) dx e show ?case by simp
  qed
  from n[OF assms(5,6)] have "brd_segments_done m brd (bio_op b) (bi_sector b) (bi_io_vec b) = length done"
    by (simp only: assms(3))
  with s w f show ?thesis by simp
qed


theorem brd_submit_bio_first_failure_witness:
  "brd_inv \<lparr>brd_number = 0, first_minor = 0, disk_capacity = 16, brd_pages = []\<rparr>
   \<and> \<not> get_capacity \<lparr>brd_number = 0, first_minor = 0, disk_capacity = 16, brd_pages = []\<rparr>
         < bio_end_sector \<lparr>bi_sector = 7, bi_size = 1024, bi_opf = 1, bi_status = BLK_STS_OK,
             bi_io_vec = [\<lparr>bv_page = replicate 4096 1, bv_len = 512, bv_offset = 0\<rparr>,
                          \<lparr>bv_page = replicate 4096 2, bv_len = 512, bv_offset = 0\<rparr>]\<rparr>
   \<and> segment_ok \<lparr>bv_page = replicate 4096 1, bv_len = 512, bv_offset = 0\<rparr>
   \<and> brd_submit_bio (True ## True ## sconst False)
         \<lparr>brd_number = 0, first_minor = 0, disk_capacity = 16, brd_pages = []\<rparr>
         \<lparr>bi_sector = 7, bi_size = 1024, bi_opf = 1, bi_status = BLK_STS_OK,
           bi_io_vec = [\<lparr>bv_page = replicate 4096 1, bv_len = 512, bv_offset = 0\<rparr>,
                        \<lparr>bv_page = replicate 4096 2, bv_len = 512, bv_offset = 0\<rparr>]\<rparr>
       = Inr (\<lparr>brd_number = 0, first_minor = 0, disk_capacity = 16,
               brd_pages = [(0, \<lparr>index = 0, data = replicate 3584 0 @ replicate 512 1\<rparr>)]\<rparr>,
              \<lparr>bi_sector = 7, bi_size = 1024, bi_opf = 1, bi_status = BLK_STS_IOERR,
                bi_io_vec = [\<lparr>bv_page = replicate 4096 1, bv_len = 512, bv_offset = 0\<rparr>,
                             \<lparr>bv_page = replicate 4096 2, bv_len = 512, bv_offset = 0\<rparr>]\<rparr>,
              sconst False)"
proof -
  let ?dev0 = "\<lparr>brd_number = 0, first_minor = 0, disk_capacity = 16, brd_pages = []\<rparr>"
  let ?dev1 = "\<lparr>brd_number = 0, first_minor = 0, disk_capacity = 16,
               brd_pages = [(0, \<lparr>index = 0, data = replicate 3584 0 @ replicate 512 1\<rparr>)]\<rparr>"
  let ?v1 = "\<lparr>bv_page = replicate 4096 (1 :: byte), bv_len = 512, bv_offset = 0\<rparr>"
  let ?v2 = "\<lparr>bv_page = replicate 4096 (2 :: byte), bv_len = 512, bv_offset = 0\<rparr>"
  let ?b = "\<lparr>bi_sector = 7, bi_size = 1024, bi_opf = 1, bi_status = BLK_STS_OK, bi_io_vec = [?v1, ?v2]\<rparr>"
  have i: "brd_inv ?dev0" by (simp add: brd_inv_def)
  have c: "\<not> get_capacity ?dev0 < bio_end_sector ?b" by (simp add: bio_eval SECTOR_SHIFT_def)
  have v: "bi_io_vec ?b = [?v1] @ ?v2 # []" by simp
  have k: "\<forall>v \<in> set [?v1]. segment_ok v" by (simp add: segment_ok_def unat_PAGE_SIZE)
  have d: "brd_submit_segments (True ## True ## sconst False) ?dev0 (bio_op ?b) (bi_sector ?b) [?v1]
      = Inr (0, ?dev1, [?v1], sconst False)"
    by (simp add: bio_eval brd_eval)
  have f: "brd_do_bvec (sconst False) ?dev1 (bv_page ?v2) (bv_len ?v2) (bv_offset ?v2) (bio_op ?b)
        (sector_after (bi_sector ?b) [?v1]) = Inr (- 28, ?dev1, replicate 4096 2, sconst False)"
    by (simp add: bio_eval brd_eval)
  have n: "- 28 \<noteq> (0 :: int)" by simp
  from brd_submit_bio_first_failure[OF i c v k d f n] i c k show ?thesis by simp
qed

text \<open>
  C7, as the claim states it, fails in its last part. The same request of two write
  segments, run once with no memory at all and once with memory for the first page only,
  completes none of its segments in the first run and one in the second; the request
  handed back to the caller is the same in both.
\<close>

theorem brd_submit_bio_no_count_counterexample:
  "brd_submit_bio (sconst False)
         \<lparr>brd_number = 0, first_minor = 0, disk_capacity = 16, brd_pages = []\<rparr>
         \<lparr>bi_sector = 7, bi_size = 1024, bi_opf = 1, bi_status = BLK_STS_OK,
           bi_io_vec = [\<lparr>bv_page = replicate 4096 1, bv_len = 512, bv_offset = 0\<rparr>,
                        \<lparr>bv_page = replicate 4096 2, bv_len = 512, bv_offset = 0\<rparr>]\<rparr>
       = Inr (\<lparr>brd_number = 0, first_minor = 0, disk_capacity = 16, brd_pages = []\<rparr>,
              \<lparr>bi_sector = 7, bi_size = 1024, bi_opf = 1, bi_status = BLK_STS_IOERR,
                bi_io_vec = [\<lparr>bv_page = replicate 4096 1, bv_len = 512, bv_offset = 0\<rparr>,
                             \<lparr>bv_page = replicate 4096 2, bv_len = 512, bv_offset = 0\<rparr>]\<rparr>,
              sconst False)
   \<and> brd_segments_done (sconst False)
         \<lparr>brd_number = 0, first_minor = 0, disk_capacity = 16, brd_pages = []\<rparr> 1 7
         [\<lparr>bv_page = replicate 4096 1, bv_len = 512, bv_offset = 0\<rparr>,
          \<lparr>bv_page = replicate 4096 2, bv_len = 512, bv_offset = 0\<rparr>] = 0
   \<and> brd_submit_bio (True ## True ## sconst False)
         \<lparr>brd_number = 0, first_minor = 0, disk_capacity = 16, brd_pages = []\<rparr>
         \<lparr>bi_sector = 7, bi_size = 1024, bi_opf = 1, bi_status = BLK_STS_OK,
           bi_io_vec = [\<lparr>bv_page = replicate 4096 1, bv_len = 512, bv_offset = 0\<rparr>,
                        \<lparr>bv_page = replicate 4096 2, bv_len = 512, bv_offset = 0\<rparr>]\<rparr>
       = Inr (\<lparr>brd_number = 0, first_minor = 0, disk_capacity = 16,
               brd_pages = [(0, \<lparr>index = 0, data = replicate 3584 0 @ replicate 512 1\<rparr>)]\<rparr>,
              \<lparr>bi_sector = 7, bi_size = 1024, bi_opf = 1, bi_status = BLK_STS_IOERR,
                bi_io_vec = [\<lparr>bv_page = replicate 4096 1, bv_len = 512, bv_offset = 0\<rparr>,
                             \<lparr>bv_page = replicate 4096 2, bv_len = 512, bv_offset = 0\<rparr>]\<rparr>,
              sconst False)
   \<and> brd_segments_done (True ## True ## sconst False)
         \<lparr>brd_number = 0, first_minor = 0, disk_capacity = 16, brd_pages = []\<rparr> 1 7
         [\<lparr>bv_page = replicate 4096 1, bv_len = 512, bv_offset = 0\<rparr>,
          \<lparr>bv_page = replicate 4096 2, bv_len = 512, bv_offset = 0\<rparr>] = 1"
  by (simp add: bio_eval brd_eval)

section \<open>Freeing all pages\<close>

lemma freed_pages_append: "freed_pages (xs @ ys) = freed_pages xs @ freed_pages ys"
  by (induction xs rule: freed_pages.induct) simp_all

lemma freed_pages_batch: "freed_pages (map (\<lambda>kv. Free_page (snd kv)) xs) = map snd xs"
  by (induction xs) simp_all

lemma yields_ok_batch:
  "k \<le> FREE_BATCH \<Longrightarrow>
   yields_ok k (map (\<lambda>kv. Free_page (snd kv)) xs @ Cond_resched # evs)
     = (k + length xs \<le> FREE_BATCH \<and> yields_ok 0 evs)"
  by (induction xs arbitrary: k) auto

lemma delete_filter: "AList.delete k al = filter (\<lambda>kv. fst kv \<noteq> k) al"
  by (induction al) auto

lemma brd_free_batch_ok:
  assumes "distinct (map fst root)"
    and "\<forall>kv \<in> set root. index (snd kv) = fst kv"
    and "set xs \<subseteq> set root"
    and "sorted (map fst xs)"
    and "distinct (map fst xs)"
    and "\<forall>kv \<in> set xs. pos \<le> fst kv"
  shows "brd_free_batch root pos (map snd xs) =
     Inr (filter (\<lambda>kv. kv \<notin> set xs) root,
          (if xs = [] then pos else fst (last xs)),
          map (\<lambda>kv. Free_page (snd kv)) xs)"
  using assms
proof (induction xs arbitrary: root pos)
  case Nil
  then show ?case by simp
next
  case (Cons x xs)
  obtain k p where x: "x = (k, p)" by (cases x)
  from Cons.prems(3) have mem: "(k, p) \<in> set root" by (simp add: x)
  with Cons.prems(2) have ip: "index p = k" by auto
  from Cons.prems(6) have "pos \<le> k" by (simp add: x)
  then have pk: "\<not> k < pos" by (simp only: not_less)
  from mem Cons.prems(1) have look: "map_of root k = Some p" by simp
  let ?root1 = "AList.delete k root"
  have 1: "distinct (map fst ?root1)" using Cons.prems(1) by (rule distinct_delete)
  have 2: "\<forall>kv \<in> set ?root1. index (snd kv) = fst kv"
    using Cons.prems(2) by (simp add: delete_filter)
  have nk: "\<forall>kv \<in> set xs. fst kv \<noteq> k" using Cons.prems(5) by (auto simp: x)
  have 3: "set xs \<subseteq> set ?root1"
    using Cons.prems(3) nk by (auto simp: delete_filter)
  have 4: "sorted (map fst xs)" using Cons.prems(4) by simp
  have 5: "distinct (map fst xs)" using Cons.prems(5) by simp
  have 6: "\<forall>kv \<in> set xs. k \<le> fst kv" using Cons.prems(4) by (simp add: x)
  have f: "filter (\<lambda>kv. kv \<notin> set xs) ?root1 = filter (\<lambda>kv. kv \<notin> set (x # xs)) root"
  proof -
    have "fst kv \<noteq> k \<longleftrightarrow> kv \<noteq> (k, p)" if "kv \<in> set root" for kv
    proof
      assume "fst kv \<noteq> k" then show "kv \<noteq> (k, p)" by auto
    next
      assume a: "kv \<noteq> (k, p)"
      show "fst kv \<noteq> k"
      proof
        assume "fst kv = k"
        with that mem Cons.prems(1) have "snd kv = p"
          by (metis eq_key_imp_eq_value prod.collapse)
        with \<open>fst kv = k\<close> a show False by (simp add: prod_eq_iff)
      qed
    qed
    then show ?thesis
      unfolding delete_filter filter_filter x by (intro filter_cong) auto
  qed
  have l: "(if xs = [] then k else fst (last xs)) = fst (last (x # xs))"
    by (simp add: x)
  show ?case
    using Cons.IH[OF 1 2 3 4 5 6] pk look
    by (simp add: x ip radix_tree_delete_def f[unfolded x] l[unfolded x])
qed

lemma filter_not_taken:
  assumes "distinct xs"
  shows "filter (\<lambda>x. x \<notin> set (take n xs)) xs = drop n xs"
proof -
  have d: "set (take n xs) \<inter> set (drop n xs) = {}"
    using assms by (simp add: set_take_disj_set_drop_if_distinct)
  have "filter (\<lambda>x. x \<notin> set (take n xs)) xs
      = filter (\<lambda>x. x \<notin> set (take n xs)) (take n xs @ drop n xs)"
    by (simp only: append_take_drop_id)
  also have "\<dots> = filter (\<lambda>x. x \<notin> set (take n xs)) (take n xs)
      @ filter (\<lambda>x. x \<notin> set (take n xs)) (drop n xs)"
    by (rule filter_append)
  also have "filter (\<lambda>x. x \<notin> set (take n xs)) (take n xs) = []" by simp
  also have "filter (\<lambda>x. x \<notin> set (take n xs)) (drop n xs) = drop n xs"
    using d by (intro filter_True) blast
  finally show ?thesis by (simp only: append_Nil)
qed

lemma brd_free_pages_loop_ok:
  assumes "distinct (map fst root)"
    and "\<forall>kv \<in> set root. index (snd kv) = fst kv"
    and "\<forall>kv \<in> set root. pos \<le> fst kv"
  shows "\<exists>evs. brd_free_pages_loop root pos = Inr ([], evs)
            \<and> freed_pages evs = map snd (sort_key fst root)
            \<and> yields_ok 0 evs"
  using assms
proof (induction "length root" arbitrary: root pos rule: less_induct)
  case less
  define S where "S = sort_key fst root"
  define xs where "xs = take FREE_BATCH S"
  define root' where "root' = filter (\<lambda>kv. kv \<notin> set xs) root"
  define evs1 where "evs1 = map (\<lambda>kv. Free_page (snd kv)) xs"
  have all: "filter (\<lambda>kv. pos \<le> fst kv) root = root"
    using less.prems(3) by (intro filter_True) blast
  have gang: "radix_tree_gang_lookup root pos FREE_BATCH = map snd xs"
    by (simp add: radix_tree_gang_lookup_def all xs_def S_def)
  have setS: "set S = set root" by (simp add: S_def)
  have sortedS: "sorted (map fst S)" by (simp add: S_def)
  have distS: "distinct S" using less.prems(1) by (simp add: S_def distinct_map)
  have injS: "inj_on fst (set S)" using less.prems(1) by (simp add: setS distinct_map)
  have distK: "distinct (map fst S)" using distS injS by (simp add: distinct_map)
  have sub: "set xs \<subseteq> set root" unfolding xs_def using setS set_take_subset by fastforce
  have sx: "sorted (map fst xs)" unfolding xs_def take_map[symmetric] using sortedS by (rule sorted_wrt_take)
  have dx: "distinct (map fst xs)" unfolding xs_def take_map[symmetric] using distK by (rule distinct_take)
  have px: "\<forall>kv \<in> set xs. pos \<le> fst kv" using sub less.prems(3) by blast
  have batch: "brd_free_batch root pos (map snd xs) =
     Inr (root', (if xs = [] then pos else fst (last xs)), evs1)"
    unfolding root'_def evs1_def
    by (rule brd_free_batch_ok[OF less.prems(1) less.prems(2) sub sx dx px])
  have sort': "sort_key fst root' = drop FREE_BATCH S"
  proof -
    have "sort_key fst root' = filter (\<lambda>kv. kv \<notin> set xs) S"
      by (simp add: root'_def S_def filter_sort)
    then show ?thesis unfolding xs_def by (simp only: filter_not_taken[OF distS])
  qed
  have lx: "length xs \<le> FREE_BATCH" by (simp add: xs_def)
  show ?case
  proof (cases "length xs = FREE_BATCH")
    case False
    then have "length S < FREE_BATCH" by (simp add: xs_def)
    then have "xs = S" by (simp add: xs_def)
    then have e: "root' = []" by (simp add: root'_def setS)
    have "brd_free_pages_loop root pos = Inr ([], evs1 @ [Cond_resched])"
      using False by (subst brd_free_pages_loop.simps) (simp add: gang batch e)
    moreover have "freed_pages (evs1 @ [Cond_resched]) = map snd S"
      by (simp add: freed_pages_append evs1_def freed_pages_batch \<open>xs = S\<close>)
    moreover have "yields_ok 0 (evs1 @ [Cond_resched])"
      using lx by (simp add: evs1_def yields_ok_batch)
    ultimately show ?thesis by (simp add: S_def)
  next
    case True
    then have ne: "xs \<noteq> []" by (auto simp: FREE_BATCH_def)
    then have lastx: "last xs \<in> set xs" by simp
    have lt: "length root' < length root"
      unfolding root'_def using lastx sub by (intro length_filter_less[of "last xs"]) auto
    have 1: "distinct (map fst root')"
      unfolding root'_def using less.prems(1) by (rule distinct_map_filter)
    have 2: "\<forall>kv \<in> set root'. index (snd kv) = fst kv"
      using less.prems(2) by (simp add: root'_def)
    have 3: "\<forall>kv \<in> set root'. fst (last xs) + 1 \<le> fst kv"
    proof
      fix kv assume kv: "kv \<in> set root'"
      then have a: "kv \<in> set S" "kv \<notin> set xs" by (simp_all add: root'_def setS)
      then have "kv \<in> set (drop FREE_BATCH S)"
        unfolding xs_def by (metis Un_iff append_take_drop_id set_append)
      moreover have "sorted (map fst (take FREE_BATCH S) @ map fst (drop FREE_BATCH S))"
        using sortedS by (simp add: map_append[symmetric] del: map_append)
      ultimately have "fst (last xs) \<le> fst kv"
        using lastx unfolding xs_def by (auto simp: sorted_append)
      moreover have "fst (last xs) \<noteq> fst kv"
      proof
        assume "fst (last xs) = fst kv"
        moreover have "last xs \<in> set S" using lastx sub setS by blast
        ultimately have "last xs = kv" using injS a(1) by (simp add: inj_on_def)
        with lastx a(2) show False by simp
      qed
      ultimately have "fst (last xs) < fst kv" by simp
      then show "fst (last xs) + 1 \<le> fst kv" by (rule inc_le)
    qed
    from less.hyps[OF lt 1 2 3] obtain evs2 where
      r: "brd_free_pages_loop root' (fst (last xs) + 1) = Inr ([], evs2)"
      and f: "freed_pages evs2 = map snd (sort_key fst root')"
      and y: "yields_ok 0 evs2"
      by blast
    have "brd_free_pages_loop root pos = Inr ([], evs1 @ Cond_resched # evs2)"
      using True ne by (subst brd_free_pages_loop.simps) (simp add: gang batch r)
    moreover have "freed_pages (evs1 @ Cond_resched # evs2) = map snd S"
    proof -
      have "freed_pages (evs1 @ Cond_resched # evs2) = map snd (take FREE_BATCH S) @ map snd (drop FREE_BATCH S)"
        by (simp add: freed_pages_append evs1_def freed_pages_batch f sort' xs_def)
      then show ?thesis by (simp add: map_append[symmetric] del: map_append)
    qed
    moreover have "yields_ok 0 (evs1 @ Cond_resched # evs2)"
      using lx y by (simp add: evs1_def yields_ok_batch)
    ultimately show ?thesis by (simp add: S_def)
  qed
qed

text \<open>
  C8. On a device whose store satisfies its invariant, \<open>brd_free_pages\<close> returns, and
  leaves a store with no pages. It releases every page that was in the store, each once,
  in ascending order of index; and it never releases more than \<open>FREE_BATCH\<close> = 16 pages
  without a \<open>cond_resched\<close> after them.
\<close>

theorem brd_free_pages_all:
  assumes "brd_inv brd"
  shows "\<exists>evs. brd_free_pages brd = Inr (brd\<lparr>brd_pages := []\<rparr>, evs)
            \<and> freed_pages evs = map snd (sort_key fst (brd_pages brd))
            \<and> yields_ok 0 evs"
proof -
  from assms have "distinct (map fst (brd_pages brd))"
    and "\<forall>kv \<in> set (brd_pages brd). index (snd kv) = fst kv"
    by (simp_all add: brd_inv_def)
  moreover have "\<forall>kv \<in> set (brd_pages brd). 0 \<le> fst kv" by simp
  ultimately obtain evs where
    "brd_free_pages_loop (brd_pages brd) 0 = Inr ([], evs)"
    "freed_pages evs = map snd (sort_key fst (brd_pages brd))"
    "yields_ok 0 evs"
    using brd_free_pages_loop_ok[of "brd_pages brd" 0] by blast
  then show ?thesis by (simp add: brd_free_pages_def)
qed

theorem brd_free_pages_all_witness:
  "brd_inv \<lparr>brd_number = 0, first_minor = 0, disk_capacity = 64,
             brd_pages = [(3, \<lparr>index = 3, data = replicate 4096 7\<rparr>),
                          (1, \<lparr>index = 1, data = replicate 4096 0\<rparr>)]\<rparr>
   \<and> (\<exists>evs. brd_free_pages \<lparr>brd_number = 0, first_minor = 0, disk_capacity = 64,
             brd_pages = [(3, \<lparr>index = 3, data = replicate 4096 7\<rparr>),
                          (1, \<lparr>index = 1, data = replicate 4096 0\<rparr>)]\<rparr>
          = Inr (\<lparr>brd_number = 0, first_minor = 0, disk_capacity = 64, brd_pages = []\<rparr>, evs)
        \<and> freed_pages evs = [\<lparr>index = 1, data = replicate 4096 0\<rparr>, \<lparr>index = 3, data = replicate 4096 7\<rparr>]
        \<and> yields_ok 0 evs)"
proof -
  have i: "brd_inv \<lparr>brd_number = 0, first_minor = 0, disk_capacity = 64,
             brd_pages = [(3, \<lparr>index = 3, data = replicate 4096 7\<rparr>),
                          (1, \<lparr>index = 1, data = replicate 4096 0\<rparr>)]\<rparr>"
    by (simp add: brd_inv_def unat_PAGE_SIZE)
  from brd_free_pages_all[OF i] i show ?thesis by (simp add: word_le_nat_alt)
qed

section \<open>Creating devices\<close>

lemma brd_alloc_number:
  "brd_alloc m rd_size max_part i = (Some brd, m1) \<Longrightarrow> brd_number brd = i \<and> brd_pages brd = []"
  by (auto simp: brd_alloc_def split: if_splits)

lemma find_snoc_new:
  "find P xs = None \<Longrightarrow> P x \<Longrightarrow> find P (xs @ [x]) = Some x"
  by (induction xs) (auto split: if_splits)

text \<open>
  C9, as the claim states it, fails when memory runs out. With the id absent and the first
  allocation of \<open>brd_alloc\<close> failing, \<open>brd_init_one\<close> returns \<open>NULL\<close> and adds nothing
  to the list; called again for the same id once memory is there, it returns a device.
  The two calls do not return the same thing, and the first neither allocates nor adds.
\<close>

theorem brd_init_one_alloc_fails_counterexample:
  "brd_init_one (False ## sconst True) 8 1 [] 2 = (None, True, [], sconst True)
   \<and> brd_init_one (sconst True) 8 1 [] 2
     = (Some \<lparr>brd_number = 2, first_minor = 2, disk_capacity = 16, brd_pages = []\<rparr>, True,
        [\<lparr>brd_number = 2, first_minor = 2, disk_capacity = 16, brd_pages = []\<rparr>], sconst True)"
  by (simp add: brd_init_one_def brd_alloc_def)

text \<open>
  C9, amended. A device that is in the list under the id is returned, with the list and
  the allocator unchanged. With the id absent: if \<open>brd_alloc\<close> succeeds, the new device is
  appended to the list and returned, and it is then the only entry for the id; if
  \<open>brd_alloc\<close> fails, \<open>NULL\<close> is returned and the list is unchanged. And whenever a
  call returns a device, a second call for the same id on the list the first one left
  returns that same device and leaves the list as it is.
\<close>

theorem brd_init_one_spec:
  "(\<forall>brd. find (\<lambda>d. brd_number d = i) devs = Some brd
       \<longrightarrow> brd_init_one m rd_size max_part devs i = (Some brd, False, devs, m))
   \<and> (\<forall>brd m1. find (\<lambda>d. brd_number d = i) devs = None
           \<and> brd_alloc m rd_size max_part i = (Some brd, m1)
       \<longrightarrow> brd_init_one m rd_size max_part devs i = (Some brd, True, devs @ [brd], m1)
           \<and> filter (\<lambda>d. brd_number d = i) (devs @ [brd]) = [brd])
   \<and> (\<forall>m1. find (\<lambda>d. brd_number d = i) devs = None
           \<and> brd_alloc m rd_size max_part i = (None, m1)
       \<longrightarrow> brd_init_one m rd_size max_part devs i = (None, True, devs, m1))
   \<and> (\<forall>brd new devs1 m1 m2.
         brd_init_one m rd_size max_part devs i = (Some brd, new, devs1, m1)
       \<longrightarrow> brd_init_one m2 rd_size max_part devs1 i = (Some brd, False, devs1, m2))"
proof (intro conjI allI impI)
  fix brd assume "find (\<lambda>d. brd_number d = i) devs = Some brd"
  then show "brd_init_one m rd_size max_part devs i = (Some brd, False, devs, m)"
    by (simp add: brd_init_one_def)
next
  fix brd m1
  assume h: "find (\<lambda>d. brd_number d = i) devs = None
           \<and> brd_alloc m rd_size max_part i = (Some brd, m1)"
  then show "brd_init_one m rd_size max_part devs i = (Some brd, True, devs @ [brd], m1)"
    by (simp add: brd_init_one_def)
  from h have "filter (\<lambda>d. brd_number d = i) devs = []"
    by (simp add: find_None_iff filter_empty_conv)
  with h brd_alloc_number[of m rd_size max_part i brd m1]
  show "filter (\<lambda>d. brd_number d = i) (devs @ [brd]) = [brd]" by simp
next
  fix m1
  assume "find (\<lambda>d. brd_number d = i) devs = None
           \<and> brd_alloc m rd_size max_part i = (None, m1)"
  then show "brd_init_one m rd_size max_part devs i = (None, True, devs, m1)"
    by (simp add: brd_init_one_def)
next
  fix brd new devs1 m1 m2
  assume a: "brd_init_one m rd_size max_part devs i = (Some brd, new, devs1, m1)"
  show "brd_init_one m2 rd_size max_part devs1 i = (Some brd, False, devs1, m2)"
  proof (cases "find (\<lambda>d. brd_number d = i) devs")
    case (Some d)
    with a have "d = brd" "devs1 = devs" by (simp_all add: brd_init_one_def)
    with Some show ?thesis by (simp add: brd_init_one_def)
  next
    case None
    with a obtain ma where al: "brd_alloc m rd_size max_part i = (Some brd, ma)" and d: "devs1 = devs @ [brd]"
      by (auto simp: brd_init_one_def split: prod.splits option.splits)
    from brd_alloc_number[OF al] have "brd_number brd = i" by simp
    with None have "find (\<lambda>d. brd_number d = i) (devs @ [brd]) = Some brd"
      by (intro find_snoc_new) simp_all
    then show ?thesis by (simp add: brd_init_one_def d)
  qed
qed

theorem brd_init_one_spec_witness:
  "find (\<lambda>d. brd_number d = 2) [\<lparr>brd_number = 0, first_minor = 0, disk_capacity = 16, brd_pages = []\<rparr>] = None
   \<and> brd_alloc (sconst True) 8 1 2
       = (Some \<lparr>brd_number = 2, first_minor = 2, disk_capacity = 16, brd_pages = []\<rparr>, sconst True)
   \<and> brd_init_one (sconst True) 8 1 [\<lparr>brd_number = 0, first_minor = 0, disk_capacity = 16, brd_pages = []\<rparr>] 2
       = (Some \<lparr>brd_number = 2, first_minor = 2, disk_capacity = 16, brd_pages = []\<rparr>, True,
          [\<lparr>brd_number = 0, first_minor = 0, disk_capacity = 16, brd_pages = []\<rparr>,
           \<lparr>brd_number = 2, first_minor = 2, disk_capacity = 16, brd_pages = []\<rparr>], sconst True)
   \<and> brd_init_one (sconst False) 8 1
         [\<lparr>brd_number = 0, first_minor = 0, disk_capacity = 16, brd_pages = []\<rparr>,
          \<lparr>brd_number = 2, first_minor = 2, disk_capacity = 16, brd_pages = []\<rparr>] 2
       = (Some \<lparr>brd_number = 2, first_minor = 2, disk_capacity = 16, brd_pages = []\<rparr>, False,
          [\<lparr>brd_number = 0, first_minor = 0, disk_capacity = 16, brd_pages = []\<rparr>,
           \<lparr>brd_number = 2, first_minor = 2, disk_capacity = 16, brd_pages = []\<rparr>], sconst False)"
proof -
  let ?d0 = "\<lparr>brd_number = 0, first_minor = 0, disk_capacity = 16, brd_pages = []\<rparr>"
  let ?d2 = "\<lparr>brd_number = 2, first_minor = 2, disk_capacity = 16, brd_pages = []\<rparr>"
  have f: "find (\<lambda>d. brd_number d = 2) [?d0] = None" by simp
  have a: "brd_alloc (sconst True) 8 1 2 = (Some ?d2, sconst True)" by (simp add: brd_alloc_def)
  note t = brd_init_one_spec[where i = 2 and devs = "[?d0]" and m = "sconst True" and rd_size = 8 and max_part = 1]
  from t f a have 1: "brd_init_one (sconst True) 8 1 [?d0] 2 = (Some ?d2, True, [?d0] @ [?d2], sconst True)"
    by blast
  with t have "brd_init_one (sconst False) 8 1 ([?d0] @ [?d2]) 2 = (Some ?d2, False, [?d0] @ [?d2], sconst False)"
    by blast
  with f a 1 show ?thesis by simp
qed

end
